theory Spec2Isabelle
  imports Main "HOL-Library.Word"
begin

section \<open>CmCoreThread.cpp: the core-thread command dispatcher\<close>

text \<open>
  A shallow embedding of \<^verbatim>\<open>BansheeCore/Source/CmCoreThread.cpp\<close>. The class
  \<^verbatim>\<open>CoreThread\<close> becomes a record of its member variables; every member function
  becomes a function on that record. Code that blocks on a mutex or on a condition
  variable is cut at its blocking points into steps of a per-thread program counter, and
  the threads are interleaved by an explicit schedule.
\<close>

subsection \<open>Data\<close>

type_synonym tid = nat
type_synonym u32 = "32 word"
type_synonym callback = nat

text \<open>
  \<^verbatim>\<open>AccessorContainer*\<close>: the address \<^verbatim>\<open>cm_new\<close> returned and the accessor in it, which
  was built with the id of the thread that created it.
\<close>

record AccessorContainer =
  container_addr :: nat
  accessor :: tid

text \<open>
  What a \<^verbatim>\<open>CoreThread\<close> finds when it is constructed: the two preprocessor switches of
  the file and the thread that \<^verbatim>\<open>ThreadPool::instance().run\<close> hands out for
  \<^verbatim>\<open>runCoreThread\<close> (their definitions are in headers outside this source file, so they
  are parameters), and the contents of \<^verbatim>\<open>mAccessor\<close>. That member (line 10) is static
  and thread-local: it belongs to the process, one pointer per thread, null in a thread
  that has never stored one, and it outlives every \<^verbatim>\<open>CoreThread\<close> object.
\<close>

record config =
  CM_FORCE_SINGLETHREADED_RENDERING :: bool
  CM_THREAD_SUPPORT :: bool
  pool_thread :: tid
  thread_locals :: "tid \<Rightarrow> AccessorContainer option"

datatype error =
    InternalErrorException string
  | NullPointer
  | OutOfBounds

text \<open>
  Modelled from the spec: \<^verbatim>\<open>FrameAlloc\<close> (CmFrameAlloc.h) is a linear memory region with
  allocate and clear ("reset-in-bulk"); only its contents matter here, kept as the list of
  the blocks handed out since the last clear.
\<close>

record FrameAlloc =
  blocks :: "nat list"

definition FrameAlloc_new :: FrameAlloc where
  "FrameAlloc_new = \<lparr>blocks = []\<rparr>"

definition FrameAlloc_clear :: "FrameAlloc \<Rightarrow> FrameAlloc" where
  "FrameAlloc_clear a = a\<lparr>blocks := []\<rparr>"

definition FrameAlloc_alloc :: "nat \<Rightarrow> FrameAlloc \<Rightarrow> FrameAlloc" where
  "FrameAlloc_alloc b a = a\<lparr>blocks := blocks a @ [b]\<rparr>"

text \<open>
  Modelled from the spec: an entry of \<^verbatim>\<open>CommandQueue\<close> (the command-queue container is
  outside this source file). It holds the callback, whether it is the returning kind
  (\<^verbatim>\<open>queueReturn\<close>), the notify flag and the notify id. \<open>call_no\<close> is a history
  variable: the number of the \<^verbatim>\<open>queueCommand\<close>/\<^verbatim>\<open>queueReturnCommand\<close> call that
  created the entry, so that two submissions of one callback are two commands.
\<close>

record QueuedCommand =
  qcallback :: callback
  returnsValue :: bool
  notifyWhenComplete :: bool
  callbackId :: u32
  call_no :: nat

text \<open>Where a thread stands inside a call of the class (its own stack and program counter).\<close>

datatype ppc =
    Idle
  | QLock nat callback bool bool
  | QHold nat callback bool bool
  | QNotifyAll nat bool u32
  | BLock nat u32
  | BScan nat u32
  | BWaiting nat u32
  | RetSync nat
  | RetQueued nat bool
  | SLock
  | SHold
  | SNotifyAll
  | SSetId

datatype cpc =
    CNotSpawned
  | CStart
  | CLock
  | CTest
  | CShutdown
  | CAddWorker
  | CWaitCall
  | CWaiting
  | CRemoveWorker
  | CFlush
  | CPlay "QueuedCommand list"
  | CNotifyLock u32 "QueuedCommand list"
  | CNotifyPush u32 "QueuedCommand list"
  | CNotifyAll "QueuedCommand list"
  | CExited

text \<open>
  The members of \<^verbatim>\<open>CoreThread\<close>, the thread-local \<^verbatim>\<open>mAccessor\<close>, the worker
  count of \<^verbatim>\<open>TaskScheduler\<close>, the owners of the two mutexes of the command path, the
  program counters, and four history variables that no step reads:
  \<open>executed\<close> (which thread invoked which call's callback, in order),
  \<open>enqueued\<close> (the call numbers put into the shared queue, in order),
  \<open>ncalls\<close> and \<open>nalloc\<close> (how many submissions were made and how many notify ids
  were handed out).
\<close>

record CoreThread =
  mCoreThreadShutdown :: bool
  mCommandQueue :: "QueuedCommand list"
  mMaxCommandNotifyId :: u32
  mCommandsCompleted :: "u32 list"
  mCoreThreadId :: tid
  mSyncedCoreAccessor :: "tid option"
  mActiveFrameAlloc :: u32
  mFrameAllocs :: "FrameAlloc option list"
  mAccessor :: "tid \<Rightarrow> AccessorContainer option"
  mAccessors :: "AccessorContainer list"
  heap_next :: nat
  workers :: int
  mCommandQueueMutex :: "tid option"
  mCommandNotifyMutex :: "tid option"
  ppcs :: "tid \<Rightarrow> ppc"
  core_pc :: cpc
  executed :: "(tid \<times> nat \<times> callback) list"
  enqueued :: "nat list"
  ncalls :: nat
  nalloc :: nat

subsection \<open>Construction\<close>

text \<open>
  \<^verbatim>\<open>initCoreThread\<close> (lines 54-63): starts \<^verbatim>\<open>runCoreThread\<close> on a pool thread, raises
  without thread support, and does nothing in a forced single-threaded build.
\<close>

definition initCoreThread :: "config \<Rightarrow> CoreThread \<Rightarrow> error + CoreThread" where
  "initCoreThread cfg s =
     (if \<not> CM_FORCE_SINGLETHREADED_RENDERING cfg then
        (if CM_THREAD_SUPPORT cfg then Inr (s\<lparr>core_pc := CStart\<rparr>)
         else Inl (InternalErrorException
           ''Attempting to start a core thread but application isn't compiled with thread support.''))
      else Inr s)"

text \<open>
  The constructor (lines 12-26), run by thread \<open>t\<close> while the task scheduler has
  \<open>w\<close> workers. It assigns every member of the object; the static thread-local
  \<^verbatim>\<open>mAccessor\<close> is not among them and keeps what the process has in it.
\<close>

definition CoreThread_ctor :: "config \<Rightarrow> tid \<Rightarrow> int \<Rightarrow> error + CoreThread" where
  "CoreThread_ctor cfg t w =
     initCoreThread cfg
       \<lparr>mCoreThreadShutdown = False,
        mCommandQueue = [],
        mMaxCommandNotifyId = 0,
        mCommandsCompleted = [],
        mCoreThreadId = t,
        mSyncedCoreAccessor = None,
        mActiveFrameAlloc = 0,
        mFrameAllocs = [Some FrameAlloc_new, Some FrameAlloc_new],
        mAccessor = thread_locals cfg,
        mAccessors = [],
        heap_next = 0,
        workers = w,
        mCommandQueueMutex = None,
        mCommandNotifyMutex = None,
        ppcs = (\<lambda>_. Idle),
        core_pc = CNotSpawned,
        executed = [],
        enqueued = [],
        ncalls = 0,
        nalloc = 0\<rparr>"

subsection \<open>Frame allocators\<close>

text \<open>
  \<^verbatim>\<open>update\<close> (lines 213-217). The array has two slots; an index outside it, or a null
  slot, is undefined behaviour in the source and an error here.
\<close>

definition update :: "CoreThread \<Rightarrow> error + CoreThread" where
  "update s =
     (let i = (mActiveFrameAlloc s + 1) mod 2 in
      if unat i < length (mFrameAllocs s) then
        (case mFrameAllocs s ! unat i of
           None \<Rightarrow> Inl NullPointer
         | Some a \<Rightarrow> Inr (s\<lparr>mActiveFrameAlloc := i,
                            mFrameAllocs := (mFrameAllocs s)[unat i := Some (FrameAlloc_clear a)]\<rparr>))
      else Inl OutOfBounds)"

text \<open>\<^verbatim>\<open>getFrameAlloc\<close> (lines 219-222): the pointer in the active slot.\<close>

definition getFrameAlloc :: "CoreThread \<Rightarrow> error + FrameAlloc option" where
  "getFrameAlloc s =
     (if unat (mActiveFrameAlloc s) < length (mFrameAllocs s)
      then Inr (mFrameAllocs s ! unat (mActiveFrameAlloc s))
      else Inl OutOfBounds)"

text \<open>
  Modelled from the spec: a client takes a block from the active arena
  (\<^verbatim>\<open>getFrameAlloc()->alloc\<close>; the callers are outside this source file).
\<close>

definition frameAllocate :: "nat \<Rightarrow> CoreThread \<Rightarrow> error + CoreThread" where
  "frameAllocate b s =
     (case getFrameAlloc s of
        Inl e \<Rightarrow> Inl e
      | Inr None \<Rightarrow> Inl NullPointer
      | Inr (Some a) \<Rightarrow>
          Inr (s\<lparr>mFrameAllocs :=
                   (mFrameAllocs s)[unat (mActiveFrameAlloc s) := Some (FrameAlloc_alloc b a)]\<rparr>))"

subsection \<open>Thread-affinity guards\<close>

text \<open>\<^verbatim>\<open>throwIfNotCoreThread\<close> (lines 273-279), called by thread \<open>t\<close>.\<close>

definition throwIfNotCoreThread :: "config \<Rightarrow> tid \<Rightarrow> CoreThread \<Rightarrow> error + unit" where
  "throwIfNotCoreThread cfg t s =
     (if \<not> CM_FORCE_SINGLETHREADED_RENDERING cfg then
        (if t \<noteq> mCoreThreadId s
         then Inl (InternalErrorException ''This method can only be accessed from the core thread.'')
         else Inr ())
      else Inr ())"

text \<open>\<^verbatim>\<open>throwIfCoreThread\<close> (lines 281-287), called by thread \<open>t\<close>.\<close>

definition throwIfCoreThread :: "config \<Rightarrow> tid \<Rightarrow> CoreThread \<Rightarrow> error + unit" where
  "throwIfCoreThread cfg t s =
     (if \<not> CM_FORCE_SINGLETHREADED_RENDERING cfg then
        (if t = mCoreThreadId s
         then Inl (InternalErrorException ''This method cannot be accessed from the core thread.'')
         else Inr ())
      else Inr ())"

subsection \<open>Accessors\<close>

text \<open>
  \<^verbatim>\<open>getAccessor\<close> (lines 119-132), called by thread \<open>t\<close>: the thread-local pointer is
  tested, and only when it is null a container is allocated and pushed onto
  \<^verbatim>\<open>mAccessors\<close>.
\<close>

definition getAccessor :: "tid \<Rightarrow> CoreThread \<Rightarrow> AccessorContainer \<times> CoreThread" where
  "getAccessor t s =
     (case mAccessor s t of
        None \<Rightarrow>
          (let c = \<lparr>container_addr = heap_next s, accessor = t\<rparr> in
           (c, s\<lparr>heap_next := heap_next s + 1,
                 mAccessor := (mAccessor s)(t := Some c),
                 mAccessors := mAccessors s @ [c]\<rparr>))
      | Some c \<Rightarrow> (c, s))"

text \<open>
  \<^verbatim>\<open>submitAccessors\<close> (lines 139-153). \<^verbatim>\<open>submitToCoreThread\<close> is outside this
  source file, so the function is read as the calls it makes: first one per entry of the
  copy of \<^verbatim>\<open>mAccessors\<close>, in order (the loop of lines 149-150), then the one through
  \<^verbatim>\<open>mSyncedCoreAccessor\<close> (line 152), an error when that pointer is not usable.
\<close>

definition submitAccessors ::
  "CoreThread \<Rightarrow> bool \<Rightarrow> (AccessorContainer \<times> bool) list \<times> (error + tid \<times> bool)" where
  "submitAccessors s blockUntilComplete =
     (let accessorCopies = mAccessors s in
      (map (\<lambda>c. (c, blockUntilComplete)) accessorCopies,
       case mSyncedCoreAccessor s of
         None \<Rightarrow> Inl NullPointer
       | Some a \<Rightarrow> Inr (a, blockUntilComplete)))"

text \<open>
  The accessor block of the destructor (lines 33-42): every registered container is
  deleted and the registry is cleared. No thread's \<^verbatim>\<open>mAccessor\<close> is touched, so a
  thread that had an accessor keeps the pointer to its deleted container. The result is
  the list of freed addresses and the state left.
\<close>

definition destroy_accessors :: "CoreThread \<Rightarrow> nat list \<times> CoreThread" where
  "destroy_accessors s = (map container_addr (mAccessors s), s\<lparr>mAccessors := []\<rparr>)"

text \<open>What the next \<^verbatim>\<open>CoreThread\<close> of the process finds after the one in state \<open>s\<close>.\<close>

definition next_instance :: "config \<Rightarrow> CoreThread \<Rightarrow> config" where
  "next_instance cfg s = cfg\<lparr>thread_locals := mAccessor (snd (destroy_accessors s))\<rparr>"

subsection \<open>The command queue\<close>

text \<open>
  Modelled from the spec: \<^verbatim>\<open>CommandQueue::queue\<close> and \<^verbatim>\<open>queueReturn\<close> append one
  entry ("playback order == enqueue order"), \<^verbatim>\<open>isEmpty\<close> tests for no entry and
  \<^verbatim>\<open>flush\<close> detaches the whole pending batch ("swap-and-clear").
\<close>

definition CommandQueue_queue ::
  "callback \<Rightarrow> bool \<Rightarrow> bool \<Rightarrow> u32 \<Rightarrow> nat \<Rightarrow> QueuedCommand list \<Rightarrow> QueuedCommand list" where
  "CommandQueue_queue cb rv notify cid n q =
     q @ [\<lparr>qcallback = cb, returnsValue = rv, notifyWhenComplete = notify,
           callbackId = cid, call_no = n\<rparr>]"

definition CommandQueue_isEmpty :: "QueuedCommand list \<Rightarrow> bool" where
  "CommandQueue_isEmpty q = (q = [])"

definition CommandQueue_flush :: "QueuedCommand list \<Rightarrow> QueuedCommand list \<times> QueuedCommand list" where
  "CommandQueue_flush q = (q, [])"

subsection \<open>Submitting commands\<close>

text \<open>
  \<^verbatim>\<open>queueCommand\<close>, lines 186-194, called by thread \<open>t\<close>: on the recorded core thread
  the callback runs at once and the call returns; any other thread goes on to take the
  queue mutex. The call gets the next call number.
\<close>

definition queueCommand :: "tid \<Rightarrow> callback \<Rightarrow> bool \<Rightarrow> CoreThread \<Rightarrow> CoreThread" where
  "queueCommand t commandCallback blockUntilComplete s =
     (if t = mCoreThreadId s then
        s\<lparr>executed := executed s @ [(t, ncalls s, commandCallback)],
          ncalls := ncalls s + 1,
          ppcs := (ppcs s)(t := RetSync (ncalls s))\<rparr>
      else
        s\<lparr>ncalls := ncalls s + 1,
          ppcs := (ppcs s)(t := QLock (ncalls s) commandCallback False blockUntilComplete)\<rparr>)"

text \<open>\<^verbatim>\<open>queueReturnCommand\<close>, lines 155-165: the same with a returning callback.\<close>

definition queueReturnCommand :: "tid \<Rightarrow> callback \<Rightarrow> bool \<Rightarrow> CoreThread \<Rightarrow> CoreThread" where
  "queueReturnCommand t commandCallback blockUntilComplete s =
     (if t = mCoreThreadId s then
        s\<lparr>executed := executed s @ [(t, ncalls s, commandCallback)],
          ncalls := ncalls s + 1,
          ppcs := (ppcs s)(t := RetSync (ncalls s))\<rparr>
      else
        s\<lparr>ncalls := ncalls s + 1,
          ppcs := (ppcs s)(t := QLock (ncalls s) commandCallback True blockUntilComplete)\<rparr>)"

text \<open>
  The block under \<^verbatim>\<open>mCommandQueueMutex\<close> (lines 195-205 and 166-176), run by the
  thread that holds the mutex, up to its release at the closing brace. A blocking
  submission takes \<^verbatim>\<open>mMaxCommandNotifyId++\<close> as its id; any other keeps
  \<^verbatim>\<open>commandId = -1\<close> and queues with the default arguments (no notify, id 0).
\<close>

definition queue_locked ::
  "tid \<Rightarrow> nat \<Rightarrow> callback \<Rightarrow> bool \<Rightarrow> bool \<Rightarrow> CoreThread \<Rightarrow> CoreThread" where
  "queue_locked t n cb rv blockUntilComplete s =
     (if blockUntilComplete then
        (let commandId = mMaxCommandNotifyId s in
         s\<lparr>mMaxCommandNotifyId := mMaxCommandNotifyId s + 1,
           mCommandQueue := CommandQueue_queue cb rv True commandId n (mCommandQueue s),
           mCommandQueueMutex := None,
           enqueued := enqueued s @ [n],
           nalloc := nalloc s + 1,
           ppcs := (ppcs s)(t := QNotifyAll n True commandId)\<rparr>)
      else
        s\<lparr>mCommandQueue := CommandQueue_queue cb rv False 0 n (mCommandQueue s),
          mCommandQueueMutex := None,
          enqueued := enqueued s @ [n],
          ppcs := (ppcs s)(t := QNotifyAll n False (- 1))\<rparr>)"

text \<open>
  The scan of \<^verbatim>\<open>blockUntilCommandCompleted\<close> (lines 233-247) by the holder of
  \<^verbatim>\<open>mCommandNotifyMutex\<close>: the first entry equal to the id is erased and the call
  returns, releasing the mutex; with no such entry the thread waits on the condition
  variable, which releases the mutex as well.
\<close>

definition blockUntilCommandCompleted_scan :: "tid \<Rightarrow> nat \<Rightarrow> u32 \<Rightarrow> CoreThread \<Rightarrow> CoreThread" where
  "blockUntilCommandCompleted_scan t n commandId s =
     (if commandId \<in> set (mCommandsCompleted s) then
        s\<lparr>mCommandsCompleted := remove1 commandId (mCommandsCompleted s),
          mCommandNotifyMutex := None,
          ppcs := (ppcs s)(t := RetQueued n True)\<rparr>
      else
        s\<lparr>mCommandNotifyMutex := None,
          ppcs := (ppcs s)(t := BWaiting n commandId)\<rparr>)"

text \<open>
  One step of a thread inside \<^verbatim>\<open>queueCommand\<close>, \<^verbatim>\<open>queueReturnCommand\<close>,
  \<^verbatim>\<open>blockUntilCommandCompleted\<close> or \<^verbatim>\<open>shutdownCoreThread\<close>; \<open>None\<close> when the
  thread cannot move (the mutex it wants is taken, or it is in no call). A thread waiting
  on a condition variable may wake at any time, by a notification or spuriously, once it
  can take the mutex again; \<^verbatim>\<open>CM_THREAD_NOTIFY_ALL\<close> therefore changes no state.
  In a forced single-threaded build the body of \<^verbatim>\<open>blockUntilCommandCompleted\<close> is
  compiled out and the call returns at once.
\<close>

definition producer_step :: "config \<Rightarrow> tid \<Rightarrow> CoreThread \<Rightarrow> CoreThread option" where
  "producer_step cfg t s =
     (case ppcs s t of
        Idle \<Rightarrow> None
      | QLock n cb rv blk \<Rightarrow>
          (if mCommandQueueMutex s = None
           then Some (s\<lparr>mCommandQueueMutex := Some t, ppcs := (ppcs s)(t := QHold n cb rv blk)\<rparr>)
           else None)
      | QHold n cb rv blk \<Rightarrow> Some (queue_locked t n cb rv blk s)
      | QNotifyAll n blk cid \<Rightarrow>
          Some (s\<lparr>ppcs := (ppcs s)(t := (if blk then BLock n cid else RetQueued n False))\<rparr>)
      | BLock n cid \<Rightarrow>
          (if CM_FORCE_SINGLETHREADED_RENDERING cfg
           then Some (s\<lparr>ppcs := (ppcs s)(t := RetQueued n True)\<rparr>)
           else if mCommandNotifyMutex s = None
           then Some (s\<lparr>mCommandNotifyMutex := Some t, ppcs := (ppcs s)(t := BScan n cid)\<rparr>)
           else None)
      | BScan n cid \<Rightarrow> Some (blockUntilCommandCompleted_scan t n cid s)
      | BWaiting n cid \<Rightarrow>
          (if mCommandNotifyMutex s = None
           then Some (s\<lparr>mCommandNotifyMutex := Some t, ppcs := (ppcs s)(t := BScan n cid)\<rparr>)
           else None)
      | RetSync n \<Rightarrow> Some (s\<lparr>ppcs := (ppcs s)(t := Idle)\<rparr>)
      | RetQueued n blk \<Rightarrow> Some (s\<lparr>ppcs := (ppcs s)(t := Idle)\<rparr>)
      | SLock \<Rightarrow>
          (if mCommandQueueMutex s = None
           then Some (s\<lparr>mCommandQueueMutex := Some t, ppcs := (ppcs s)(t := SHold)\<rparr>)
           else None)
      | SHold \<Rightarrow>
          Some (s\<lparr>mCoreThreadShutdown := True, mCommandQueueMutex := None,
                  ppcs := (ppcs s)(t := SNotifyAll)\<rparr>)
      | SNotifyAll \<Rightarrow> Some (s\<lparr>ppcs := (ppcs s)(t := SSetId)\<rparr>)
      | SSetId \<Rightarrow> Some (s\<lparr>mCoreThreadId := t, ppcs := (ppcs s)(t := Idle)\<rparr>))"

text \<open>
  \<^verbatim>\<open>shutdownCoreThread\<close> (lines 103-117), entered by thread \<open>t\<close>; its body is
  compiled out in a forced single-threaded build.
\<close>

definition shutdownCoreThread :: "config \<Rightarrow> tid \<Rightarrow> CoreThread \<Rightarrow> CoreThread" where
  "shutdownCoreThread cfg t s =
     (if \<not> CM_FORCE_SINGLETHREADED_RENDERING cfg
      then s\<lparr>ppcs := (ppcs s)(t := SLock)\<rparr>
      else s)"

subsection \<open>The core thread\<close>

text \<open>
  Modelled from the spec: \<^verbatim>\<open>TaskScheduler::removeWorker\<close> and \<^verbatim>\<open>addWorker\<close> reserve
  and release one unit of the shared worker capacity.
\<close>

definition removeWorker :: "CoreThread \<Rightarrow> CoreThread" where
  "removeWorker s = s\<lparr>workers := workers s - 1\<rparr>"

definition addWorker :: "CoreThread \<Rightarrow> CoreThread" where
  "addWorker s = s\<lparr>workers := workers s + 1\<rparr>"

text \<open>
  \<^verbatim>\<open>commandCompletedNotify\<close> (lines 252-261), the block under
  \<^verbatim>\<open>mCommandNotifyMutex\<close>.
\<close>

definition commandCompletedNotify_push :: "u32 \<Rightarrow> CoreThread \<Rightarrow> CoreThread" where
  "commandCompletedNotify_push commandId s =
     s\<lparr>mCommandsCompleted := mCommandsCompleted s @ [commandId], mCommandNotifyMutex := None\<rparr>"

text \<open>
  Modelled from the spec: \<^verbatim>\<open>CommandQueue::playbackWithNotify\<close> (the command-queue
  container is outside this source file), one command of it: "Play back every command in
  order; for each command that carries a notify-id, after invocation insert the id into
  CompletionSet and broadcast-wake all blocked waiters". The head \<open>c\<close> of the batch is
  invoked on thread \<open>p\<close>; when the command asked for it, the callback bound at line 98,
  \<^verbatim>\<open>commandCompletedNotify\<close>, is due next with the command's id.
\<close>

definition playbackWithNotify_head ::
  "tid \<Rightarrow> QueuedCommand \<Rightarrow> QueuedCommand list \<Rightarrow> CoreThread \<Rightarrow> CoreThread" where
  "playbackWithNotify_head p c cs s =
     s\<lparr>executed := executed s @ [(p, call_no c, qcallback c)],
       core_pc := (if notifyWhenComplete c then CNotifyLock (callbackId c) cs else CPlay cs)\<rparr>"

text \<open>
  One step of \<^verbatim>\<open>runCoreThread\<close> (lines 65-101) on the pool thread. The mutex taken at
  line 78 is released by the wait of line 90, at the return of line 86 and at the closing
  brace of line 95. Deleting the synced accessor leaves no usable pointer.
\<close>

definition core_step :: "config \<Rightarrow> CoreThread \<Rightarrow> CoreThread option" where
  "core_step cfg s =
     (case core_pc s of
        CNotSpawned \<Rightarrow> None
      | CStart \<Rightarrow>
          (if \<not> CM_FORCE_SINGLETHREADED_RENDERING cfg
           then Some ((removeWorker s)\<lparr>mCoreThreadId := pool_thread cfg,
                       mSyncedCoreAccessor := Some (pool_thread cfg), core_pc := CLock\<rparr>)
           else Some (s\<lparr>core_pc := CExited\<rparr>))
      | CLock \<Rightarrow>
          (if mCommandQueueMutex s = None
           then Some (s\<lparr>mCommandQueueMutex := Some (pool_thread cfg), core_pc := CTest\<rparr>)
           else None)
      | CTest \<Rightarrow>
          (if CommandQueue_isEmpty (mCommandQueue s)
           then (if mCoreThreadShutdown s then Some (s\<lparr>core_pc := CShutdown\<rparr>)
                 else Some (s\<lparr>core_pc := CAddWorker\<rparr>))
           else Some (s\<lparr>core_pc := CFlush\<rparr>))
      | CShutdown \<Rightarrow>
          Some ((addWorker s)\<lparr>mSyncedCoreAccessor := None, mCommandQueueMutex := None,
                  core_pc := CExited\<rparr>)
      | CAddWorker \<Rightarrow> Some ((addWorker s)\<lparr>core_pc := CWaitCall\<rparr>)
      | CWaitCall \<Rightarrow> Some (s\<lparr>mCommandQueueMutex := None, core_pc := CWaiting\<rparr>)
      | CWaiting \<Rightarrow>
          (if mCommandQueueMutex s = None
           then Some (s\<lparr>mCommandQueueMutex := Some (pool_thread cfg), core_pc := CRemoveWorker\<rparr>)
           else None)
      | CRemoveWorker \<Rightarrow> Some ((removeWorker s)\<lparr>core_pc := CTest\<rparr>)
      | CFlush \<Rightarrow>
          (case CommandQueue_flush (mCommandQueue s) of
             (commands, rest) \<Rightarrow>
               Some (s\<lparr>mCommandQueue := rest, mCommandQueueMutex := None,
                       core_pc := CPlay commands\<rparr>))
      | CPlay commands \<Rightarrow>
          (case commands of
             [] \<Rightarrow> Some (s\<lparr>core_pc := CLock\<rparr>)
           | c # cs \<Rightarrow> Some (playbackWithNotify_head (pool_thread cfg) c cs s))
      | CNotifyLock cid cs \<Rightarrow>
          (if mCommandNotifyMutex s = None
           then Some (s\<lparr>mCommandNotifyMutex := Some (pool_thread cfg), core_pc := CNotifyPush cid cs\<rparr>)
           else None)
      | CNotifyPush cid cs \<Rightarrow> Some ((commandCompletedNotify_push cid s)\<lparr>core_pc := CNotifyAll cs\<rparr>)
      | CNotifyAll cs \<Rightarrow> Some (s\<lparr>core_pc := CPlay cs\<rparr>)
      | CExited \<Rightarrow> None)"

subsection \<open>Interleaving\<close>

text \<open>
  A schedule is a list of events: a thread that is in no call enters one, a thread inside
  a call takes its next step, or the core thread takes its next step. The pool thread
  runs only \<^verbatim>\<open>runCoreThread\<close>; what a callback does is opaque. An event that is not
  enabled, or that runs into undefined behaviour, ends the run with \<open>None\<close>.
  \<^verbatim>\<open>shutdownCoreThread\<close> is an event of its own; the deletions the destructor makes
  after it (lines 33-51) end the life of the object and are not events, what they do to
  the accessors is \<open>destroy_accessors\<close>.
\<close>

datatype call =
    QueueCommand callback bool
  | QueueReturnCommand callback bool
  | ShutdownCoreThread
  | GetAccessor
  | Update
  | FrameAllocate nat

datatype event = Call tid call | Step tid | Core

definition call_step :: "config \<Rightarrow> tid \<Rightarrow> call \<Rightarrow> CoreThread \<Rightarrow> CoreThread option" where
  "call_step cfg t c s =
     (case c of
        QueueCommand cb blk \<Rightarrow> Some (queueCommand t cb blk s)
      | QueueReturnCommand cb blk \<Rightarrow> Some (queueReturnCommand t cb blk s)
      | ShutdownCoreThread \<Rightarrow> Some (shutdownCoreThread cfg t s)
      | GetAccessor \<Rightarrow> Some (snd (getAccessor t s))
      | Update \<Rightarrow> (case update s of Inl e \<Rightarrow> None | Inr s' \<Rightarrow> Some s')
      | FrameAllocate b \<Rightarrow> (case frameAllocate b s of Inl e \<Rightarrow> None | Inr s' \<Rightarrow> Some s'))"

definition step :: "config \<Rightarrow> event \<Rightarrow> CoreThread \<Rightarrow> CoreThread option" where
  "step cfg e s =
     (case e of
        Call t c \<Rightarrow> (if t \<noteq> pool_thread cfg \<and> ppcs s t = Idle then call_step cfg t c s else None)
      | Step t \<Rightarrow> (if t \<noteq> pool_thread cfg then producer_step cfg t s else None)
      | Core \<Rightarrow> core_step cfg s)"

primrec run :: "config \<Rightarrow> event list \<Rightarrow> CoreThread \<Rightarrow> CoreThread option" where
  "run cfg [] s = Some s"
| "run cfg (e # es) s = (case step cfg e s of None \<Rightarrow> None | Some s' \<Rightarrow> run cfg es s')"

text \<open>
  An execution: the constructor on thread \<open>t\<close> (with \<open>w\<close> scheduler workers), then a
  schedule. \<open>state_after\<close> reads the final state of an execution that exists.
\<close>

definition execution :: "config \<Rightarrow> tid \<Rightarrow> int \<Rightarrow> event list \<Rightarrow> CoreThread option" where
  "execution cfg t w es =
     (case CoreThread_ctor cfg t w of Inl e \<Rightarrow> None | Inr s0 \<Rightarrow> run cfg es s0)"

definition state_after :: "config \<Rightarrow> tid \<Rightarrow> int \<Rightarrow> event list \<Rightarrow> CoreThread" where
  "state_after cfg t w es = the (execution cfg t w es)"

text \<open>
  The two builds, threaded (pool thread 1) and forced single-threaded, in a process that
  has had no \<^verbatim>\<open>CoreThread\<close> before.
\<close>

definition cfg_mt :: config where
  "cfg_mt = \<lparr>CM_FORCE_SINGLETHREADED_RENDERING = False, CM_THREAD_SUPPORT = True,
             pool_thread = 1, thread_locals = (\<lambda>_. None)\<rparr>"

definition cfg_st :: config where
  "cfg_st = \<lparr>CM_FORCE_SINGLETHREADED_RENDERING = True, CM_THREAD_SUPPORT = True,
             pool_thread = 1, thread_locals = (\<lambda>_. None)\<rparr>"

lemmas model_defs =
  execution_def state_after_def cfg_mt_def cfg_st_def CoreThread_ctor_def initCoreThread_def
  step_def call_step_def producer_step_def core_step_def playbackWithNotify_head_def
  queueCommand_def
  queueReturnCommand_def queue_locked_def blockUntilCommandCompleted_scan_def
  shutdownCoreThread_def removeWorker_def addWorker_def commandCompletedNotify_push_def
  CommandQueue_queue_def CommandQueue_isEmpty_def CommandQueue_flush_def
  getAccessor_def update_def getFrameAlloc_def frameAllocate_def
  FrameAlloc_new_def FrameAlloc_clear_def FrameAlloc_alloc_def Let_def

lemma execution_Nil: "execution cfg t w [] = Some s \<longleftrightarrow> CoreThread_ctor cfg t w = Inr s"
  by (simp add: execution_def split: sum.splits)

lemma execution_snoc:
  "execution cfg t w (es @ [e]) =
     (case execution cfg t w es of None \<Rightarrow> None | Some s \<Rightarrow> step cfg e s)"
proof -
  have "run cfg (es @ [e]) s0 = (case run cfg es s0 of None \<Rightarrow> None | Some s \<Rightarrow> step cfg e s)"
    for s0
    by (induction es arbitrary: s0) (auto split: option.splits)
  then show ?thesis by (simp add: execution_def split: sum.splits)
qed

text \<open>Invariants are proved by induction on the schedule, from the end.\<close>

lemma execution_induct [consumes 1, case_names ctor step]:
  assumes "execution cfg t w es = Some s"
    and "\<And>s0. CoreThread_ctor cfg t w = Inr s0 \<Longrightarrow> P s0"
    and "\<And>e s s'. P s \<Longrightarrow> step cfg e s = Some s' \<Longrightarrow> P s'"
  shows "P s"
  using assms(1)
proof (induction es arbitrary: s rule: rev_induct)
  case Nil
  then show ?case using assms(2) by (simp add: execution_Nil)
next
  case (snoc e es)
  then show ?case using assms(3) by (auto simp: execution_snoc split: option.splits)
qed

lemma execution_induct_sched [consumes 1, case_names ctor step]:
  assumes "execution cfg t w es = Some s"
    and "\<And>s0. CoreThread_ctor cfg t w = Inr s0 \<Longrightarrow> P [] s0"
    and "\<And>es e s s'. execution cfg t w es = Some s \<Longrightarrow> P es s \<Longrightarrow> step cfg e s = Some s' \<Longrightarrow> P (es @ [e]) s'"
  shows "P es s"
  using assms(1)
proof (induction es arbitrary: s rule: rev_induct)
  case Nil
  then show ?case using assms(2) by (simp add: execution_Nil)
next
  case (snoc e es)
  then show ?case using assms(3) by (auto simp: execution_snoc split: option.splits)
qed

section \<open>Frame allocators\<close>

definition frame_inv :: "CoreThread \<Rightarrow> bool" where
  "frame_inv s =
     ((mActiveFrameAlloc s = 0 \<or> mActiveFrameAlloc s = 1) \<and> length (mFrameAllocs s) = 2
      \<and> mFrameAllocs s ! 0 \<noteq> None \<and> mFrameAllocs s ! 1 \<noteq> None)"

lemma producer_step_frames:
  "producer_step cfg t s = Some s' \<Longrightarrow>
     mActiveFrameAlloc s' = mActiveFrameAlloc s \<and> mFrameAllocs s' = mFrameAllocs s"
  by (auto simp: producer_step_def queue_locked_def blockUntilCommandCompleted_scan_def Let_def
      split: ppc.splits if_splits)

lemma core_step_frames:
  "core_step cfg s = Some s' \<Longrightarrow>
     mActiveFrameAlloc s' = mActiveFrameAlloc s \<and> mFrameAllocs s' = mFrameAllocs s"
  by (auto simp: core_step_def playbackWithNotify_head_def removeWorker_def addWorker_def
      commandCompletedNotify_push_def
      CommandQueue_flush_def split: cpc.splits if_splits list.splits)

lemma u32_mod2_cases: "(x::u32) mod 2 = 0 \<or> x mod 2 = 1"
  by (metis (no_types) even_iff_mod_2_eq_zero odd_iff_mod_2_eq_one)

lemma update_frame_inv:
  assumes "frame_inv s" and "update s = Inr s'"
  shows "frame_inv s'"
proof -
  define i where "i = (mActiveFrameAlloc s + 1) mod 2"
  have "i = 0 \<or> i = 1" unfolding i_def by (rule u32_mod2_cases)
  then show ?thesis
  proof
    assume "i = 0"
    with assms show ?thesis
      by (auto simp: frame_inv_def update_def Let_def i_def[symmetric] nth_list_update
          split: option.splits)
  next
    assume "i = 1"
    with assms show ?thesis
      by (auto simp: frame_inv_def update_def Let_def i_def[symmetric] nth_list_update
          split: option.splits)
  qed
qed

lemma frameAllocate_frame_inv: "frame_inv s \<Longrightarrow> frameAllocate b s = Inr s' \<Longrightarrow> frame_inv s'"
  by (auto simp: frame_inv_def frameAllocate_def getFrameAlloc_def nth_list_update
      split: if_splits option.splits sum.splits)

lemma call_step_frame_inv:
  assumes "frame_inv s" and "call_step cfg t c s = Some s'"
  shows "frame_inv s'"
proof (cases c)
  case Update
  with assms show ?thesis
    by (auto simp: call_step_def dest: update_frame_inv split: sum.splits)
next
  case (FrameAllocate b)
  with assms show ?thesis
    by (auto simp: call_step_def dest: frameAllocate_frame_inv split: sum.splits)
qed (use assms in \<open>auto simp: call_step_def queueCommand_def queueReturnCommand_def
      shutdownCoreThread_def getAccessor_def Let_def frame_inv_def split: option.splits if_splits\<close>)

lemma step_frame_inv:
  assumes "frame_inv s" and "step cfg e s = Some s'"
  shows "frame_inv s'"
proof (cases e)
  case (Call t c)
  with assms show ?thesis
    by (auto simp: step_def dest: call_step_frame_inv split: if_splits)
next
  case (Step t)
  with assms producer_step_frames[of cfg t s s'] show ?thesis
    by (auto simp: step_def frame_inv_def split: if_splits)
next
  case Core
  with assms core_step_frames[of cfg s s'] show ?thesis
    by (auto simp: step_def frame_inv_def)
qed

lemma ctor_frame_inv: "CoreThread_ctor cfg t w = Inr s \<Longrightarrow> frame_inv s"
  by (auto simp: CoreThread_ctor_def initCoreThread_def frame_inv_def split: if_splits)

lemma execution_frame_inv: "execution cfg t w es = Some s \<Longrightarrow> frame_inv s"
  by (induction rule: execution_induct) (auto intro: ctor_frame_inv step_frame_inv)

text \<open>What \<^verbatim>\<open>update\<close> does to a state with a valid index and two arenas.\<close>

lemma update_effect:
  assumes "frame_inv s"
  shows "\<exists>s' a. update s = Inr s'
     \<and> mActiveFrameAlloc s' = (mActiveFrameAlloc s + 1) mod 2
     \<and> mActiveFrameAlloc s' \<noteq> mActiveFrameAlloc s
     \<and> mFrameAllocs s ! unat (mActiveFrameAlloc s') = Some a
     \<and> mFrameAllocs s' ! unat (mActiveFrameAlloc s') = Some (FrameAlloc_clear a)
     \<and> mFrameAllocs s' ! unat (mActiveFrameAlloc s) = mFrameAllocs s ! unat (mActiveFrameAlloc s)
     \<and> getFrameAlloc s' = Inr (Some (FrameAlloc_clear a))"
proof -
  from assms have "mActiveFrameAlloc s = 0 \<or> mActiveFrameAlloc s = 1"
    by (simp add: frame_inv_def)
  then show ?thesis
  proof
    assume "mActiveFrameAlloc s = 0"
    with assms show ?thesis
      by (auto simp: frame_inv_def update_def getFrameAlloc_def Let_def)
  next
    assume "mActiveFrameAlloc s = 1"
    with assms show ?thesis
      by (auto simp: frame_inv_def update_def getFrameAlloc_def Let_def)
  qed
qed

text \<open>
  C10. In every state of every execution the active-frame index is 0 or 1: it is 0
  after the constructor, \<^verbatim>\<open>update\<close> succeeds and maps it to \<open>(i + 1) mod 2\<close>, the
  index is inside the two-element array, and \<^verbatim>\<open>getFrameAlloc\<close> returns a non-null
  pointer, the one in slot 0 or slot 1.
\<close>

theorem active_frame_index_in_bounds:
  assumes "execution cfg t w es = Some s"
  shows "mActiveFrameAlloc (state_after cfg t w []) = 0
     \<and> (mActiveFrameAlloc s = 0 \<or> mActiveFrameAlloc s = 1)
     \<and> length (mFrameAllocs s) = 2
     \<and> unat (mActiveFrameAlloc s) < length (mFrameAllocs s)
     \<and> (\<exists>a. getFrameAlloc s = Inr (Some a)
            \<and> (Some a = mFrameAllocs s ! 0 \<or> Some a = mFrameAllocs s ! 1))
     \<and> (\<exists>s'. update s = Inr s' \<and> mActiveFrameAlloc s' = (mActiveFrameAlloc s + 1) mod 2)"
proof -
  have inv: "frame_inv s" using assms by (rule execution_frame_inv)
  have "execution cfg t w [] \<noteq> None"
    using assms by (auto simp: execution_def split: sum.splits)
  then have z: "mActiveFrameAlloc (state_after cfg t w []) = 0"
    by (auto simp: state_after_def execution_def CoreThread_ctor_def initCoreThread_def
        split: sum.splits if_splits)
  have c: "mActiveFrameAlloc s = 0 \<or> mActiveFrameAlloc s = 1"
    using inv by (simp add: frame_inv_def)
  then have lt: "unat (mActiveFrameAlloc s) < 2" by auto
  have g: "\<exists>a. getFrameAlloc s = Inr (Some a)
            \<and> (Some a = mFrameAllocs s ! 0 \<or> Some a = mFrameAllocs s ! 1)"
    using inv c by (auto simp: frame_inv_def getFrameAlloc_def)
  have u: "\<exists>s'. update s = Inr s' \<and> mActiveFrameAlloc s' = (mActiveFrameAlloc s + 1) mod 2"
    using update_effect[OF inv] by blast
  from z c lt g u inv show ?thesis by (simp add: frame_inv_def)
qed

theorem active_frame_index_in_bounds_witness:
  "execution cfg_mt 0 4 [Call 0 Update, Call 0 (FrameAllocate 5), Call 0 Update, Call 0 Update]
     \<noteq> None
   \<and> mActiveFrameAlloc
       (state_after cfg_mt 0 4 [Call 0 Update, Call 0 (FrameAllocate 5), Call 0 Update, Call 0 Update])
     = 1
   \<and> getFrameAlloc
       (state_after cfg_mt 0 4 [Call 0 Update, Call 0 (FrameAllocate 5), Call 0 Update, Call 0 Update])
     = Inr (Some \<lparr>blocks = []\<rparr>)"
proof -
  let ?es = "[Call 0 Update, Call 0 (FrameAllocate 5), Call 0 Update, Call 0 Update]"
  have e: "execution cfg_mt 0 4 ?es = Some (state_after cfg_mt 0 4 ?es)"
    by (simp add: model_defs)
  have v: "mActiveFrameAlloc (state_after cfg_mt 0 4 ?es) = 1"
    "getFrameAlloc (state_after cfg_mt 0 4 ?es) = Inr (Some \<lparr>blocks = []\<rparr>)"
    by (simp_all add: model_defs)
  from active_frame_index_in_bounds[OF e] e v show ?thesis by simp
qed

text \<open>
  C2 as stated fails: \<^verbatim>\<open>update\<close> clears the arena that becomes active, not the one
  that was active before the call. After a block 5 in arena 0, an \<^verbatim>\<open>update\<close> and a block
  7 in arena 1, the next \<^verbatim>\<open>update\<close> makes arena 0 active and empties it, and arena 1,
  active before the call, keeps its block.
\<close>

theorem update_clears_inactive_counterexample:
  "execution cfg_mt 0 4 [Call 0 (FrameAllocate 5), Call 0 Update, Call 0 (FrameAllocate 7)] \<noteq> None
   \<and> mActiveFrameAlloc
       (state_after cfg_mt 0 4 [Call 0 (FrameAllocate 5), Call 0 Update, Call 0 (FrameAllocate 7)])
     = 1
   \<and> mFrameAllocs
       (state_after cfg_mt 0 4 [Call 0 (FrameAllocate 5), Call 0 Update, Call 0 (FrameAllocate 7)])
     = [Some \<lparr>blocks = [5]\<rparr>, Some \<lparr>blocks = [7]\<rparr>]
   \<and> map_sum id mActiveFrameAlloc
       (update (state_after cfg_mt 0 4
          [Call 0 (FrameAllocate 5), Call 0 Update, Call 0 (FrameAllocate 7)]))
     = Inr 0
   \<and> map_sum id mFrameAllocs
       (update (state_after cfg_mt 0 4
          [Call 0 (FrameAllocate 5), Call 0 Update, Call 0 (FrameAllocate 7)]))
     = Inr [Some \<lparr>blocks = []\<rparr>, Some \<lparr>blocks = [7]\<rparr>]
   \<and> map_sum id mFrameAllocs
       (update (state_after cfg_mt 0 4
          [Call 0 (FrameAllocate 5), Call 0 Update, Call 0 (FrameAllocate 7)]))
     \<noteq> Inr [Some \<lparr>blocks = [5]\<rparr>, Some \<lparr>blocks = []\<rparr>]"
  by (simp add: model_defs)

text \<open>
  C2, amended. In every state of every execution \<^verbatim>\<open>update\<close> succeeds, flips the
  active index, clears the newly active arena (the one that was inactive before the
  call) and leaves the previously active arena as it was; \<^verbatim>\<open>getFrameAlloc\<close> afterwards
  returns the newly active, now empty, arena.
\<close>

theorem update_clears_newly_active:
  assumes "execution cfg t w es = Some s"
  shows "\<exists>s' a. update s = Inr s'
     \<and> mActiveFrameAlloc s' = (mActiveFrameAlloc s + 1) mod 2
     \<and> mActiveFrameAlloc s' \<noteq> mActiveFrameAlloc s
     \<and> mFrameAllocs s ! unat (mActiveFrameAlloc s') = Some a
     \<and> mFrameAllocs s' ! unat (mActiveFrameAlloc s') = Some (FrameAlloc_clear a)
     \<and> blocks (FrameAlloc_clear a) = []
     \<and> mFrameAllocs s' ! unat (mActiveFrameAlloc s) = mFrameAllocs s ! unat (mActiveFrameAlloc s)
     \<and> getFrameAlloc s' = Inr (Some (FrameAlloc_clear a))"
proof -
  have "frame_inv s" using assms by (rule execution_frame_inv)
  from update_effect[OF this] show ?thesis
    by (auto simp: FrameAlloc_clear_def)
qed

theorem update_clears_newly_active_witness:
  "execution cfg_mt 0 4 [Call 0 (FrameAllocate 5), Call 0 Update, Call 0 (FrameAllocate 7)] \<noteq> None
   \<and> (\<exists>s' a. update (state_after cfg_mt 0 4
                 [Call 0 (FrameAllocate 5), Call 0 Update, Call 0 (FrameAllocate 7)]) = Inr s'
        \<and> mActiveFrameAlloc s' = 0
        \<and> a = \<lparr>blocks = [5]\<rparr>
        \<and> mFrameAllocs s' ! 0 = Some (FrameAlloc_clear a)
        \<and> mFrameAllocs s' ! 1 = Some \<lparr>blocks = [7]\<rparr>
        \<and> getFrameAlloc s' = Inr (Some \<lparr>blocks = []\<rparr>))"
proof -
  let ?es = "[Call 0 (FrameAllocate 5), Call 0 Update, Call 0 (FrameAllocate 7)]"
  have e: "execution cfg_mt 0 4 ?es = Some (state_after cfg_mt 0 4 ?es)"
    by (simp add: model_defs)
  have v: "mActiveFrameAlloc (state_after cfg_mt 0 4 ?es) = 1"
    "mFrameAllocs (state_after cfg_mt 0 4 ?es) = [Some \<lparr>blocks = [5]\<rparr>, Some \<lparr>blocks = [7]\<rparr>]"
    by (simp_all add: model_defs)
  from update_clears_newly_active[OF e] e v show ?thesis
    by (auto simp: FrameAlloc_clear_def)
qed

section \<open>Thread-affinity guards\<close>

text \<open>
  C6 as stated fails: in a forced single-threaded build both guards are compiled out.
  There, on the state the constructor leaves (core thread id 0),
  \<^verbatim>\<open>throwIfNotCoreThread\<close> called by thread 5 and \<^verbatim>\<open>throwIfCoreThread\<close> called by
  thread 0 both return without raising.
\<close>

theorem thread_guards_counterexample:
  "execution cfg_st 0 4 [] \<noteq> None
   \<and> mCoreThreadId (state_after cfg_st 0 4 []) = 0
   \<and> throwIfNotCoreThread cfg_st 5 (state_after cfg_st 0 4 []) = Inr ()
   \<and> throwIfCoreThread cfg_st 0 (state_after cfg_st 0 4 []) = Inr ()"
  by (simp add: model_defs throwIfNotCoreThread_def throwIfCoreThread_def)

text \<open>
  C6, amended. In a build without \<^verbatim>\<open>CM_FORCE_SINGLETHREADED_RENDERING\<close>,
  \<^verbatim>\<open>throwIfNotCoreThread\<close> called from a thread other than the recorded core thread,
  and \<^verbatim>\<open>throwIfCoreThread\<close> called from the recorded core thread, raise
  \<^verbatim>\<open>InternalErrorException\<close>; each guard returns normally exactly in the opposite
  case.
\<close>

theorem thread_guards_raise:
  assumes "\<not> CM_FORCE_SINGLETHREADED_RENDERING cfg"
  shows "(t \<noteq> mCoreThreadId s \<longrightarrow>
            throwIfNotCoreThread cfg t s =
              Inl (InternalErrorException ''This method can only be accessed from the core thread.''))
     \<and> (t = mCoreThreadId s \<longrightarrow>
            throwIfCoreThread cfg t s =
              Inl (InternalErrorException ''This method cannot be accessed from the core thread.''))
     \<and> (throwIfNotCoreThread cfg t s = Inr () \<longleftrightarrow> t = mCoreThreadId s)
     \<and> (throwIfCoreThread cfg t s = Inr () \<longleftrightarrow> t \<noteq> mCoreThreadId s)"
  using assms by (simp add: throwIfNotCoreThread_def throwIfCoreThread_def)

theorem thread_guards_raise_witness:
  "\<not> CM_FORCE_SINGLETHREADED_RENDERING cfg_mt
   \<and> execution cfg_mt 0 4 [Core] \<noteq> None
   \<and> mCoreThreadId (state_after cfg_mt 0 4 [Core]) = 1
   \<and> throwIfNotCoreThread cfg_mt 0 (state_after cfg_mt 0 4 [Core]) =
        Inl (InternalErrorException ''This method can only be accessed from the core thread.'')
   \<and> throwIfCoreThread cfg_mt 1 (state_after cfg_mt 0 4 [Core]) =
        Inl (InternalErrorException ''This method cannot be accessed from the core thread.'')
   \<and> throwIfNotCoreThread cfg_mt 1 (state_after cfg_mt 0 4 [Core]) = Inr ()
   \<and> throwIfCoreThread cfg_mt 0 (state_after cfg_mt 0 4 [Core]) = Inr ()"
proof -
  have c: "\<not> CM_FORCE_SINGLETHREADED_RENDERING cfg_mt" by (simp add: cfg_mt_def)
  have e: "execution cfg_mt 0 4 [Core] \<noteq> None"
    "mCoreThreadId (state_after cfg_mt 0 4 [Core]) = 1"
    by (simp_all add: model_defs)
  from thread_guards_raise[OF c, of 0 "state_after cfg_mt 0 4 [Core]"]
    thread_guards_raise[OF c, of 1 "state_after cfg_mt 0 4 [Core]"] c e
  show ?thesis by simp
qed

section \<open>Submission from the core thread\<close>

text \<open>
  C3. When \<^verbatim>\<open>queueCommand\<close> or \<^verbatim>\<open>queueReturnCommand\<close> is called by the thread whose
  id is the recorded core-thread id, the callback is invoked by the caller within the
  call, which then stands at its return: the shared queue, the notify-id counter, the
  completed list and both mutexes are untouched, the core thread's position is unchanged,
  and the caller's only remaining step is the return (it never reaches the mutex or
  \<^verbatim>\<open>CM_THREAD_NOTIFY_ALL\<close>).
\<close>

theorem queue_on_core_thread_runs_synchronously:
  assumes "t = mCoreThreadId s"
    and "s' = queueCommand t cb blk s \<or> s' = queueReturnCommand t cb blk s"
  shows "executed s' = executed s @ [(t, ncalls s, cb)]
     \<and> ppcs s' t = RetSync (ncalls s)
     \<and> producer_step cfg t s' = Some (s'\<lparr>ppcs := (ppcs s')(t := Idle)\<rparr>)
     \<and> mCommandQueue s' = mCommandQueue s
     \<and> enqueued s' = enqueued s
     \<and> mMaxCommandNotifyId s' = mMaxCommandNotifyId s
     \<and> nalloc s' = nalloc s
     \<and> mCommandsCompleted s' = mCommandsCompleted s
     \<and> mCommandQueueMutex s' = mCommandQueueMutex s
     \<and> mCommandNotifyMutex s' = mCommandNotifyMutex s
     \<and> core_pc s' = core_pc s"
  using assms by (auto simp: queueCommand_def queueReturnCommand_def producer_step_def)

theorem queue_on_core_thread_runs_synchronously_witness:
  "execution cfg_mt 0 4 [] \<noteq> None
   \<and> mCoreThreadId (state_after cfg_mt 0 4 []) = 0
   \<and> executed (queueCommand 0 7 True (state_after cfg_mt 0 4 [])) = [(0, 0, 7)]
   \<and> ppcs (queueCommand 0 7 True (state_after cfg_mt 0 4 [])) 0 = RetSync 0
   \<and> mCommandQueue (queueCommand 0 7 True (state_after cfg_mt 0 4 [])) = []
   \<and> mMaxCommandNotifyId (queueCommand 0 7 True (state_after cfg_mt 0 4 [])) = 0"
proof -
  have e: "execution cfg_mt 0 4 [] \<noteq> None" "mCoreThreadId (state_after cfg_mt 0 4 []) = 0"
    "executed (state_after cfg_mt 0 4 []) = []" "ncalls (state_after cfg_mt 0 4 []) = 0"
    "mCommandQueue (state_after cfg_mt 0 4 []) = []"
    "mMaxCommandNotifyId (state_after cfg_mt 0 4 []) = 0"
    by (simp_all add: model_defs)
  from queue_on_core_thread_runs_synchronously[of 0 "state_after cfg_mt 0 4 []"
      "queueCommand 0 7 True (state_after cfg_mt 0 4 [])" 7 True cfg_mt] e
  show ?thesis by simp
qed

section \<open>Accessors\<close>

definition acc_inv :: "CoreThread \<Rightarrow> bool" where
  "acc_inv s =
     ((\<forall>t c. mAccessor s t = Some c \<longrightarrow> c \<in> set (mAccessors s) \<and> accessor c = t)
      \<and> (\<forall>c \<in> set (mAccessors s). mAccessor s (accessor c) = Some c \<and> container_addr c < heap_next s)
      \<and> distinct (map container_addr (mAccessors s)))"

lemma acc_inv_registered:
  assumes "acc_inv s" and "c \<in> set (mAccessors s)"
  shows "mAccessor s (accessor c) = Some c" and "container_addr c < heap_next s"
proof -
  from assms(1)[unfolded acc_inv_def]
  have "\<forall>c \<in> set (mAccessors s). mAccessor s (accessor c) = Some c \<and> container_addr c < heap_next s"
    by (rule conjunct2[THEN conjunct1])
  from bspec[OF this assms(2)]
  show "mAccessor s (accessor c) = Some c" and "container_addr c < heap_next s"
    by (rule conjunct1, rule conjunct2)
qed

lemma acc_inv_cached:
  assumes "acc_inv s" and "mAccessor s t = Some c"
  shows "c \<in> set (mAccessors s)" and "accessor c = t"
proof -
  from assms(1)[unfolded acc_inv_def]
  have "\<forall>t c. mAccessor s t = Some c \<longrightarrow> c \<in> set (mAccessors s) \<and> accessor c = t"
    by (rule conjunct1)
  from this[rule_format, OF assms(2)]
  show "c \<in> set (mAccessors s)" and "accessor c = t"
    by (rule conjunct1, rule conjunct2)
qed

lemma acc_inv_addrs:  "acc_inv s \<Longrightarrow> distinct (map container_addr (mAccessors s))"
  unfolding acc_inv_def by (rule conjunct2[THEN conjunct2])

lemma acc_inv_distinct_threads:
  assumes "acc_inv s"
  shows "distinct (map accessor (mAccessors s))"
proof -
  have d: "distinct (mAccessors s)"
    using acc_inv_addrs[OF assms] by (simp add: distinct_map)
  have "inj_on accessor (set (mAccessors s))"
  proof (rule inj_onI)
    fix c1 c2
    assume c: "c1 \<in> set (mAccessors s)" and d: "c2 \<in> set (mAccessors s)"
      and eq: "accessor c1 = accessor c2"
    have "Some c1 = mAccessor s (accessor c1)"
      using acc_inv_registered(1)[OF assms c] by (rule sym)
    also have "\<dots> = mAccessor s (accessor c2)" by (simp only: eq)
    also have "\<dots> = Some c2" by (rule acc_inv_registered(1)[OF assms d])
    finally show "c1 = c2" by (simp only: option.inject)
  qed
  with d show ?thesis by (simp add: distinct_map)
qed


lemma producer_step_acc:
  "producer_step cfg t s = Some s' \<Longrightarrow>
     mAccessor s' = mAccessor s \<and> mAccessors s' = mAccessors s \<and> heap_next s' = heap_next s"
  by (auto simp: producer_step_def queue_locked_def blockUntilCommandCompleted_scan_def Let_def
      split: ppc.splits if_splits)

lemma core_step_acc:
  "core_step cfg s = Some s' \<Longrightarrow>
     mAccessor s' = mAccessor s \<and> mAccessors s' = mAccessors s \<and> heap_next s' = heap_next s"
  by (auto simp: core_step_def playbackWithNotify_head_def removeWorker_def addWorker_def
      commandCompletedNotify_push_def
      CommandQueue_flush_def split: cpc.splits if_splits list.splits)

lemma call_step_acc:
  "call_step cfg t c s = Some s' \<Longrightarrow> c \<noteq> GetAccessor \<Longrightarrow>
     mAccessor s' = mAccessor s \<and> mAccessors s' = mAccessors s \<and> heap_next s' = heap_next s"
  by (cases c) (auto simp: call_step_def queueCommand_def queueReturnCommand_def
      shutdownCoreThread_def update_def frameAllocate_def Let_def
      split: sum.splits option.splits if_splits)

lemma getAccessor_acc_inv:
  assumes "acc_inv s"
  shows "acc_inv (snd (getAccessor t s))"
proof (cases "mAccessor s t")
  case (Some c)
  with assms show ?thesis by (simp add: getAccessor_def)
next
  case None
  define c where "c = \<lparr>container_addr = heap_next s, accessor = t\<rparr>"
  define s' where "s' = s\<lparr>heap_next := heap_next s + 1,
                 mAccessor := (mAccessor s)(t := Some c),
                 mAccessors := mAccessors s @ [c]\<rparr>"
  have eq: "snd (getAccessor t s) = s'"
    using None by (simp add: getAccessor_def Let_def s'_def c_def)
  have old: "\<And>d. d \<in> set (mAccessors s) \<Longrightarrow>
      mAccessor s (accessor d) = Some d \<and> container_addr d < heap_next s"
    using assms by (simp add: acc_inv_def)
  have old_ne: "\<And>d. d \<in> set (mAccessors s) \<Longrightarrow> accessor d \<noteq> t"
    using old None by fastforce
  have 1: "\<forall>u d. mAccessor s' u = Some d \<longrightarrow> d \<in> set (mAccessors s') \<and> accessor d = u"
    using assms by (auto simp: s'_def c_def acc_inv_def)
  have 2: "\<forall>d \<in> set (mAccessors s').
      mAccessor s' (accessor d) = Some d \<and> container_addr d < heap_next s'"
    using old old_ne by (auto simp: s'_def c_def less_Suc_eq)
  have "heap_next s \<notin> container_addr ` set (mAccessors s)"
    using old by fastforce
  then have 3: "distinct (map container_addr (mAccessors s'))"
    using assms by (simp add: s'_def c_def acc_inv_def)
  from 1 2 3 show ?thesis unfolding eq acc_inv_def by blast
qed

lemma step_acc_inv:
  assumes "acc_inv s" and "step cfg e s = Some s'"
  shows "acc_inv s'"
proof (cases e)
  case (Call t c)
  show ?thesis
  proof (cases "c = GetAccessor")
    case True
    with Call assms show ?thesis
      by (auto simp: step_def call_step_def intro: getAccessor_acc_inv split: if_splits)
  next
    case False
    with Call assms call_step_acc[of cfg t c s s'] show ?thesis
      by (auto simp: step_def acc_inv_def split: if_splits)
  qed
next
  case (Step t)
  with assms producer_step_acc[of cfg t s s'] show ?thesis
    by (auto simp: step_def acc_inv_def split: if_splits)
next
  case Core
  with assms core_step_acc[of cfg s s'] show ?thesis
    by (auto simp: step_def acc_inv_def)
qed

lemma ctor_acc_inv:
  "thread_locals cfg = (\<lambda>_. None) \<Longrightarrow> CoreThread_ctor cfg t w = Inr s \<Longrightarrow> acc_inv s"
  by (auto simp: CoreThread_ctor_def initCoreThread_def acc_inv_def split: if_splits)

lemma execution_acc_inv:
  assumes "thread_locals cfg = (\<lambda>_. None)" and "execution cfg t w es = Some s"
  shows "acc_inv s"
  using assms(2)
  by (induction rule: execution_induct) (auto intro: ctor_acc_inv[OF assms(1)] step_acc_inv)

lemma getAccessor_kept:
  "mAccessor s t = Some c \<Longrightarrow> mAccessor (snd (getAccessor u s)) t = Some c"
  by (cases "mAccessor s u") (auto simp: getAccessor_def Let_def)

lemma step_mAccessor_kept:
  assumes "step cfg e s = Some s'" and "mAccessor s t = Some c"
  shows "mAccessor s' t = Some c"
proof (cases e)
  case (Call u d)
  show ?thesis
  proof (cases "d = GetAccessor")
    case True
    with Call assms(1) have "s' = snd (getAccessor u s)"
      by (simp add: step_def call_step_def split: if_splits)
    with assms(2) show ?thesis by (simp add: getAccessor_kept)
  next
    case False
    with Call assms call_step_acc[of cfg u d s s'] show ?thesis
      by (simp add: step_def split: if_splits)
  qed
next
  case (Step u)
  with assms producer_step_acc[of cfg u s s'] show ?thesis
    by (simp add: step_def split: if_splits)
next
  case Core
  with assms core_step_acc[of cfg s s'] show ?thesis
    by (simp add: step_def)
qed

lemma run_mAccessor_kept:
  "run cfg es s = Some s' \<Longrightarrow> mAccessor s t = Some c \<Longrightarrow> mAccessor s' t = Some c"
proof (induction es arbitrary: s)
  case Nil
  then show ?case by simp
next
  case (Cons e es)
  then obtain s1 where "step cfg e s = Some s1" "run cfg es s1 = Some s'"
    by (auto split: option.splits)
  with Cons show ?case using step_mAccessor_kept by blast
qed

lemma run_acc_inv: "run cfg es s = Some s' \<Longrightarrow> acc_inv s \<Longrightarrow> acc_inv s'"
proof (induction es arbitrary: s)
  case Nil
  then show ?case by simp
next
  case (Cons e es)
  then obtain s1 where "step cfg e s = Some s1" "run cfg es s1 = Some s'"
    by (auto split: option.splits)
  with Cons show ?case using step_acc_inv by blast
qed

definition getAccessor_callers :: "event list \<Rightarrow> tid set" where
  "getAccessor_callers es = {t. Call t GetAccessor \<in> set es}"

lemma getAccessor_dom: "dom (mAccessor (snd (getAccessor t s))) = insert t (dom (mAccessor s))"
  by (auto simp: getAccessor_def Let_def split: option.splits if_splits)

lemma getAccessor_callers_snoc:
  "getAccessor_callers (es @ [e]) =
     (case e of Call t GetAccessor \<Rightarrow> insert t (getAccessor_callers es) | _ \<Rightarrow> getAccessor_callers es)"
  by (auto simp: getAccessor_callers_def split: event.splits call.splits)

lemma step_dom_mAccessor:
  assumes "step cfg e s = Some s'"
  shows "dom (mAccessor s') =
     (case e of Call t GetAccessor \<Rightarrow> insert t (dom (mAccessor s)) | _ \<Rightarrow> dom (mAccessor s))"
proof (cases e)
  case (Call u d)
  show ?thesis
  proof (cases "d = GetAccessor")
    case True
    with Call assms getAccessor_dom[of u s] show ?thesis
      by (auto simp: step_def call_step_def split: if_splits)
  next
    case False
    with Call assms call_step_acc[of cfg u d s s'] show ?thesis
      by (cases d) (auto simp: step_def split: if_splits)
  qed
next
  case (Step u)
  with assms producer_step_acc[of cfg u s s'] show ?thesis
    by (auto simp: step_def split: if_splits)
next
  case Core
  with assms core_step_acc[of cfg s s'] show ?thesis
    by (auto simp: step_def)
qed

lemma execution_dom_mAccessor:
  assumes "thread_locals cfg = (\<lambda>_. None)" and "execution cfg t0 w es = Some s"
  shows "dom (mAccessor s) = getAccessor_callers es"
  using assms(2)
proof (induction rule: execution_induct_sched)
  case (ctor s0)
  then show ?case using assms(1)
    by (auto simp: CoreThread_ctor_def initCoreThread_def getAccessor_callers_def split: if_splits)
next
  case (step es e s s')
  then show ?case
    by (simp add: step_dom_mAccessor getAccessor_callers_snoc split: event.splits call.splits)
qed

lemma acc_inv_registry_dom:
  assumes "acc_inv s"
  shows "accessor ` set (mAccessors s) = dom (mAccessor s)"
proof (intro set_eqI iffI)
  fix t
  assume "t \<in> accessor ` set (mAccessors s)"
  then obtain c where c: "c \<in> set (mAccessors s)" and t: "accessor c = t" by auto
  from acc_inv_registered(1)[OF assms c] t show "t \<in> dom (mAccessor s)" by auto
next
  fix t
  assume "t \<in> dom (mAccessor s)"
  then obtain c where c: "mAccessor s t = Some c" by auto
  from acc_inv_cached[OF assms c] show "t \<in> accessor ` set (mAccessors s)" by auto
qed

lemma distinct_count_list: "distinct xs \<Longrightarrow> x \<in> set xs \<Longrightarrow> count_list xs x = 1"
  by (induction xs) auto

text \<open>
  In a process whose threads all have a null \<^verbatim>\<open>mAccessor\<close> when the
  \<^verbatim>\<open>CoreThread\<close> is constructed, \<^verbatim>\<open>getAccessor\<close> creates lazily and once per
  thread. In any state \<open>s\<close> of an execution, a call by thread \<open>t\<close> returns an accessor
  bound to \<open>t\<close>; when the thread had none, the new container is appended to
  \<^verbatim>\<open>mAccessors\<close> and was not in it before, otherwise the state is unchanged. After any
  further schedule, a call by the same thread returns that same container and changes
  nothing, the container is in the registry exactly once, the registry holds at most one
  accessor per thread, and its threads are exactly those that called \<^verbatim>\<open>getAccessor\<close>.
\<close>

lemma getAccessor_once_per_thread_first_instance:
  assumes "thread_locals cfg = (\<lambda>_. None)"
    and "execution cfg t0 w es = Some s"
    and "run cfg es' (snd (getAccessor t s)) = Some s'"
  shows "accessor (fst (getAccessor t s)) = t
     \<and> (mAccessor s t = None \<longrightarrow>
          mAccessors (snd (getAccessor t s)) = mAccessors s @ [fst (getAccessor t s)]
          \<and> fst (getAccessor t s) \<notin> set (mAccessors s))
     \<and> (mAccessor s t \<noteq> None \<longrightarrow> snd (getAccessor t s) = s)
     \<and> getAccessor t s' = (fst (getAccessor t s), s')
     \<and> count_list (mAccessors s') (fst (getAccessor t s)) = 1
     \<and> distinct (map accessor (mAccessors s'))
     \<and> accessor ` set (mAccessors s) = getAccessor_callers es"
proof -
  let ?c = "fst (getAccessor t s)" and ?s1 = "snd (getAccessor t s)"
  have inv: "acc_inv s" using assms(1,2) by (rule execution_acc_inv)
  have inv1: "acc_inv ?s1" using inv by (rule getAccessor_acc_inv)
  have inv': "acc_inv s'" using assms(3) inv1 by (rule run_acc_inv)
  have cached1: "mAccessor ?s1 t = Some ?c"
    by (cases "mAccessor s t") (auto simp: getAccessor_def Let_def)
  have cached': "mAccessor s' t = Some ?c"
    using assms(3) cached1 by (rule run_mAccessor_kept)
  have 1: "accessor ?c = t" using acc_inv_cached(2)[OF inv1 cached1] .
  have 2: "mAccessor s t = None \<longrightarrow>
          mAccessors ?s1 = mAccessors s @ [?c] \<and> ?c \<notin> set (mAccessors s)"
  proof
    assume n: "mAccessor s t = None"
    have "?c \<in> set (mAccessors s) \<Longrightarrow> False"
    proof -
      assume "?c \<in> set (mAccessors s)"
      from acc_inv_registered(1)[OF inv this] 1 n show False by simp
    qed
    moreover have "mAccessors ?s1 = mAccessors s @ [?c]"
      using n by (simp add: getAccessor_def Let_def)
    ultimately show "mAccessors ?s1 = mAccessors s @ [?c] \<and> ?c \<notin> set (mAccessors s)"
      by blast
  qed
  have 3: "mAccessor s t \<noteq> None \<longrightarrow> ?s1 = s"
    by (auto simp: getAccessor_def)
  have 4: "getAccessor t s' = (?c, s')"
    using cached' by (simp add: getAccessor_def)
  have "?c \<in> set (mAccessors s')" using acc_inv_cached(1)[OF inv' cached'] .
  moreover have "distinct (mAccessors s')"
    using acc_inv_addrs[OF inv'] by (simp add: distinct_map)
  ultimately have 5: "count_list (mAccessors s') ?c = 1"
    by (simp add: distinct_count_list)
  have 6: "distinct (map accessor (mAccessors s'))"
    using inv' by (rule acc_inv_distinct_threads)
  have 7: "accessor ` set (mAccessors s) = getAccessor_callers es"
    using acc_inv_registry_dom[OF inv] execution_dom_mAccessor[OF assms(1,2)] by simp
  from 1 2 3 4 5 6 7 show ?thesis by blast
qed


text \<open>
  C9 holds on the first \<^verbatim>\<open>CoreThread\<close> of a process and fails on a later one. Thread 2
  takes an accessor from the first instance (address 0), the destructor frees it, and a
  second instance is constructed: \<^verbatim>\<open>getAccessor\<close> on thread 2 finds its stale
  thread-local pointer non-null (line 121), creates nothing, registers nothing and
  returns the freed container; \<^verbatim>\<open>submitAccessors\<close> then has no accessor to flush.
\<close>

theorem getAccessor_after_restart_returns_freed:
  "execution cfg_mt 0 4 [Call 2 GetAccessor] \<noteq> None
   \<and> mAccessors (state_after cfg_mt 0 4 [Call 2 GetAccessor])
       = [\<lparr>container_addr = 0, accessor = 2\<rparr>]
   \<and> fst (destroy_accessors (state_after cfg_mt 0 4 [Call 2 GetAccessor])) = [0]
   \<and> execution (next_instance cfg_mt (state_after cfg_mt 0 4 [Call 2 GetAccessor])) 0 4 [] \<noteq> None
   \<and> mAccessors
        (state_after (next_instance cfg_mt (state_after cfg_mt 0 4 [Call 2 GetAccessor])) 0 4 [])
       = []
   \<and> fst (getAccessor 2
        (state_after (next_instance cfg_mt (state_after cfg_mt 0 4 [Call 2 GetAccessor])) 0 4 []))
       = \<lparr>container_addr = 0, accessor = 2\<rparr>
   \<and> mAccessors (snd (getAccessor 2
        (state_after (next_instance cfg_mt (state_after cfg_mt 0 4 [Call 2 GetAccessor])) 0 4 [])))
       = []
   \<and> fst (submitAccessors (snd (getAccessor 2
        (state_after (next_instance cfg_mt (state_after cfg_mt 0 4 [Call 2 GetAccessor])) 0 4 [])))
        True) = []"
  by (simp add: model_defs destroy_accessors_def next_instance_def submitAccessors_def)

section \<open>The steps, case by case\<close>

text \<open>
  Elimination rules for the steps: every step a thread inside a call can take, every step
  of the core thread and every entry into a call, each with the condition under which it
  is taken and the state it leaves.
\<close>

lemmas producer_defs = producer_step_def queue_locked_def blockUntilCommandCompleted_scan_def
  CommandQueue_queue_def Let_def
lemmas core_defs = core_step_def playbackWithNotify_head_def removeWorker_def addWorker_def
  commandCompletedNotify_push_def
  CommandQueue_flush_def CommandQueue_isEmpty_def
lemmas call_defs = call_step_def queueCommand_def queueReturnCommand_def shutdownCoreThread_def
  getAccessor_def update_def frameAllocate_def getFrameAlloc_def Let_def

lemma producer_step_cases [consumes 1, case_names QLock QHoldB QHoldN QNotifyAll BLockST BLock BFound BWait BWake RetSync RetQueued SLock SHold SNotifyAll SSetId]:
  assumes "producer_step cfg t s = Some s'"
  obtains
    (QLock) n cb rv blk where "ppcs s t = QLock n cb rv blk" "mCommandQueueMutex s = None"
      "s' = s\<lparr>mCommandQueueMutex := Some t, ppcs := (ppcs s)(t := QHold n cb rv blk)\<rparr>"
  | (QHoldB) n cb rv where "ppcs s t = QHold n cb rv True"
      "s' = s\<lparr>mMaxCommandNotifyId := mMaxCommandNotifyId s + 1,
           mCommandQueue := mCommandQueue s @ [\<lparr>qcallback = cb, returnsValue = rv,
              notifyWhenComplete = True, callbackId = mMaxCommandNotifyId s, call_no = n\<rparr>],
           mCommandQueueMutex := None,
           enqueued := enqueued s @ [n],
           nalloc := nalloc s + 1,
           ppcs := (ppcs s)(t := QNotifyAll n True (mMaxCommandNotifyId s))\<rparr>"
  | (QHoldN) n cb rv where "ppcs s t = QHold n cb rv False"
      "s' = s\<lparr>mCommandQueue := mCommandQueue s @ [\<lparr>qcallback = cb, returnsValue = rv,
              notifyWhenComplete = False, callbackId = 0, call_no = n\<rparr>],
          mCommandQueueMutex := None,
          enqueued := enqueued s @ [n],
          ppcs := (ppcs s)(t := QNotifyAll n False (- 1))\<rparr>"
  | (QNotifyAll) n blk cid where "ppcs s t = QNotifyAll n blk cid"
      "s' = s\<lparr>ppcs := (ppcs s)(t := (if blk then BLock n cid else RetQueued n False))\<rparr>"
  | (BLockST) n cid where "ppcs s t = BLock n cid" "CM_FORCE_SINGLETHREADED_RENDERING cfg"
      "s' = s\<lparr>ppcs := (ppcs s)(t := RetQueued n True)\<rparr>"
  | (BLock) n cid where "ppcs s t = BLock n cid" "\<not> CM_FORCE_SINGLETHREADED_RENDERING cfg"
      "mCommandNotifyMutex s = None"
      "s' = s\<lparr>mCommandNotifyMutex := Some t, ppcs := (ppcs s)(t := BScan n cid)\<rparr>"
  | (BFound) n cid where "ppcs s t = BScan n cid" "cid \<in> set (mCommandsCompleted s)"
      "s' = s\<lparr>mCommandsCompleted := remove1 cid (mCommandsCompleted s),
          mCommandNotifyMutex := None,
          ppcs := (ppcs s)(t := RetQueued n True)\<rparr>"
  | (BWait) n cid where "ppcs s t = BScan n cid" "cid \<notin> set (mCommandsCompleted s)"
      "s' = s\<lparr>mCommandNotifyMutex := None, ppcs := (ppcs s)(t := BWaiting n cid)\<rparr>"
  | (BWake) n cid where "ppcs s t = BWaiting n cid" "mCommandNotifyMutex s = None"
      "s' = s\<lparr>mCommandNotifyMutex := Some t, ppcs := (ppcs s)(t := BScan n cid)\<rparr>"
  | (RetSync) n where "ppcs s t = RetSync n" "s' = s\<lparr>ppcs := (ppcs s)(t := Idle)\<rparr>"
  | (RetQueued) n blk where "ppcs s t = RetQueued n blk" "s' = s\<lparr>ppcs := (ppcs s)(t := Idle)\<rparr>"
  | (SLock) "ppcs s t = SLock" "mCommandQueueMutex s = None"
      "s' = s\<lparr>mCommandQueueMutex := Some t, ppcs := (ppcs s)(t := SHold)\<rparr>"
  | (SHold) "ppcs s t = SHold"
      "s' = s\<lparr>mCoreThreadShutdown := True, mCommandQueueMutex := None,
                  ppcs := (ppcs s)(t := SNotifyAll)\<rparr>"
  | (SNotifyAll) "ppcs s t = SNotifyAll" "s' = s\<lparr>ppcs := (ppcs s)(t := SSetId)\<rparr>"
  | (SSetId) "ppcs s t = SSetId" "s' = s\<lparr>mCoreThreadId := t, ppcs := (ppcs s)(t := Idle)\<rparr>"
proof (cases "ppcs s t")
  case Idle
  with assms show ?thesis by (simp add: producer_step_def)
next
  case (QLock n cb rv blk)
  show ?thesis using assms QLock
    by (intro that(1)[of n cb rv blk]) (auto simp: producer_defs split: if_splits)
next
  case (QHold n cb rv blk)
  show ?thesis
  proof (cases blk)
    case True
    show ?thesis using assms QHold True
      by (intro that(2)[of n cb rv]) (auto simp: producer_defs)
  next
    case False
    show ?thesis using assms QHold False
      by (intro that(3)[of n cb rv]) (auto simp: producer_defs)
  qed
next
  case (QNotifyAll n blk cid)
  show ?thesis using assms QNotifyAll
    by (intro that(4)[of n blk cid]) (auto simp: producer_defs)
next
  case (BLock n cid)
  show ?thesis
  proof (cases "CM_FORCE_SINGLETHREADED_RENDERING cfg")
    case True
    show ?thesis using assms BLock True
      by (intro that(5)[of n cid]) (auto simp: producer_defs)
  next
    case False
    show ?thesis using assms BLock False
      by (intro that(6)[of n cid]) (auto simp: producer_defs split: if_splits)
  qed
next
  case (BScan n cid)
  show ?thesis
  proof (cases "cid \<in> set (mCommandsCompleted s)")
    case True
    show ?thesis using assms BScan True
      by (intro that(7)[of n cid]) (auto simp: producer_defs)
  next
    case False
    show ?thesis using assms BScan False
      by (intro that(8)[of n cid]) (auto simp: producer_defs)
  qed
next
  case (BWaiting n cid)
  show ?thesis using assms BWaiting
    by (intro that(9)[of n cid]) (auto simp: producer_defs split: if_splits)
next
  case (RetSync n)
  show ?thesis using assms RetSync
    by (intro that(10)[of n]) (auto simp: producer_defs)
next
  case (RetQueued n blk)
  show ?thesis using assms RetQueued
    by (intro that(11)[of n blk]) (auto simp: producer_defs)
next
  case SLock
  show ?thesis using assms SLock
    by (intro that(12)) (auto simp: producer_defs split: if_splits)
next
  case SHold
  show ?thesis using assms SHold
    by (intro that(13)) (auto simp: producer_defs)
next
  case SNotifyAll
  show ?thesis using assms SNotifyAll
    by (intro that(14)) (auto simp: producer_defs)
next
  case SSetId
  show ?thesis using assms SSetId
    by (intro that(15)) (auto simp: producer_defs)
qed

lemma core_step_cases [consumes 1, case_names CStart CStartST CLock CTestShutdown CTestWait
    CTestFlush CShutdown CAddWorker CWaitCall CWake CRemoveWorker CFlush CPlayNil CPlayNotify
    CPlayPlain CNotifyLock CNotifyPush CNotifyAll]:
  assumes "core_step cfg s = Some s'"
  obtains
    (CStart) "core_pc s = CStart" "\<not> CM_FORCE_SINGLETHREADED_RENDERING cfg"
      "s' = s\<lparr>workers := workers s - 1, mCoreThreadId := pool_thread cfg,
                mSyncedCoreAccessor := Some (pool_thread cfg), core_pc := CLock\<rparr>"
  | (CStartST) "core_pc s = CStart" "CM_FORCE_SINGLETHREADED_RENDERING cfg"
      "s' = s\<lparr>core_pc := CExited\<rparr>"
  | (CLock) "core_pc s = CLock" "mCommandQueueMutex s = None"
      "s' = s\<lparr>mCommandQueueMutex := Some (pool_thread cfg), core_pc := CTest\<rparr>"
  | (CTestShutdown) "core_pc s = CTest" "mCommandQueue s = []" "mCoreThreadShutdown s"
      "s' = s\<lparr>core_pc := CShutdown\<rparr>"
  | (CTestWait) "core_pc s = CTest" "mCommandQueue s = []" "\<not> mCoreThreadShutdown s"
      "s' = s\<lparr>core_pc := CAddWorker\<rparr>"
  | (CTestFlush) "core_pc s = CTest" "mCommandQueue s \<noteq> []"
      "s' = s\<lparr>core_pc := CFlush\<rparr>"
  | (CShutdown) "core_pc s = CShutdown"
      "s' = s\<lparr>workers := workers s + 1, mSyncedCoreAccessor := None,
                mCommandQueueMutex := None, core_pc := CExited\<rparr>"
  | (CAddWorker) "core_pc s = CAddWorker"
      "s' = s\<lparr>workers := workers s + 1, core_pc := CWaitCall\<rparr>"
  | (CWaitCall) "core_pc s = CWaitCall"
      "s' = s\<lparr>mCommandQueueMutex := None, core_pc := CWaiting\<rparr>"
  | (CWake) "core_pc s = CWaiting" "mCommandQueueMutex s = None"
      "s' = s\<lparr>mCommandQueueMutex := Some (pool_thread cfg), core_pc := CRemoveWorker\<rparr>"
  | (CRemoveWorker) "core_pc s = CRemoveWorker"
      "s' = s\<lparr>workers := workers s - 1, core_pc := CTest\<rparr>"
  | (CFlush) "core_pc s = CFlush"
      "s' = s\<lparr>mCommandQueue := [], mCommandQueueMutex := None,
                core_pc := CPlay (mCommandQueue s)\<rparr>"
  | (CPlayNil) "core_pc s = CPlay []" "s' = s\<lparr>core_pc := CLock\<rparr>"
  | (CPlayNotify) c cs where "core_pc s = CPlay (c # cs)" "notifyWhenComplete c"
      "s' = s\<lparr>executed := executed s @ [(pool_thread cfg, call_no c, qcallback c)],
                core_pc := CNotifyLock (callbackId c) cs\<rparr>"
  | (CPlayPlain) c cs where "core_pc s = CPlay (c # cs)" "\<not> notifyWhenComplete c"
      "s' = s\<lparr>executed := executed s @ [(pool_thread cfg, call_no c, qcallback c)],
                core_pc := CPlay cs\<rparr>"
  | (CNotifyLock) cid cs where "core_pc s = CNotifyLock cid cs" "mCommandNotifyMutex s = None"
      "s' = s\<lparr>mCommandNotifyMutex := Some (pool_thread cfg), core_pc := CNotifyPush cid cs\<rparr>"
  | (CNotifyPush) cid cs where "core_pc s = CNotifyPush cid cs"
      "s' = s\<lparr>mCommandsCompleted := mCommandsCompleted s @ [cid],
                mCommandNotifyMutex := None, core_pc := CNotifyAll cs\<rparr>"
  | (CNotifyAll) cs where "core_pc s = CNotifyAll cs" "s' = s\<lparr>core_pc := CPlay cs\<rparr>"
proof (cases "core_pc s")
  case CNotSpawned
  with assms show ?thesis by (simp add: core_step_def)
next
  case CStart
  show ?thesis
  proof (cases "CM_FORCE_SINGLETHREADED_RENDERING cfg")
    case True
    show ?thesis using assms CStart True by (intro that(2)) (auto simp: core_defs)
  next
    case False
    show ?thesis using assms CStart False by (intro that(1)) (auto simp: core_defs)
  qed
next
  case CLock
  show ?thesis using assms CLock by (intro that(3)) (auto simp: core_defs split: if_splits)
next
  case CTest
  show ?thesis
  proof (cases "mCommandQueue s = []")
    case True
    show ?thesis
    proof (cases "mCoreThreadShutdown s")
      case sd: True
      show ?thesis using assms CTest True sd by (intro that(4)) (auto simp: core_defs)
    next
      case sd: False
      show ?thesis using assms CTest True sd by (intro that(5)) (auto simp: core_defs)
    qed
  next
    case False
    show ?thesis using assms CTest False by (intro that(6)) (auto simp: core_defs)
  qed
next
  case CShutdown
  show ?thesis using assms CShutdown by (intro that(7)) (auto simp: core_defs)
next
  case CAddWorker
  show ?thesis using assms CAddWorker by (intro that(8)) (auto simp: core_defs)
next
  case CWaitCall
  show ?thesis using assms CWaitCall by (intro that(9)) (auto simp: core_defs)
next
  case CWaiting
  show ?thesis using assms CWaiting by (intro that(10)) (auto simp: core_defs split: if_splits)
next
  case CRemoveWorker
  show ?thesis using assms CRemoveWorker by (intro that(11)) (auto simp: core_defs)
next
  case CFlush
  show ?thesis using assms CFlush by (intro that(12)) (auto simp: core_defs)
next
  case (CPlay commands)
  show ?thesis
  proof (cases commands)
    case Nil
    show ?thesis using assms CPlay Nil by (intro that(13)) (auto simp: core_defs)
  next
    case (Cons c cs)
    show ?thesis
    proof (cases "notifyWhenComplete c")
      case True
      show ?thesis using assms CPlay Cons True
        by (intro that(14)[of c cs]) (auto simp: core_defs)
    next
      case False
      show ?thesis using assms CPlay Cons False
        by (intro that(15)[of c cs]) (auto simp: core_defs)
    qed
  qed
next
  case (CNotifyLock cid cs)
  show ?thesis using assms CNotifyLock
    by (intro that(16)[of cid cs]) (auto simp: core_defs split: if_splits)
next
  case (CNotifyPush cid cs)
  show ?thesis using assms CNotifyPush by (intro that(17)[of cid cs]) (auto simp: core_defs)
next
  case (CNotifyAll cs)
  show ?thesis using assms CNotifyAll by (intro that(18)[of cs]) (auto simp: core_defs)
next
  case CExited
  with assms show ?thesis by (simp add: core_step_def)
qed

text \<open>
  The submissions of a schedule, in order: who called \<^verbatim>\<open>queueCommand\<close> or
  \<^verbatim>\<open>queueReturnCommand\<close>, with which callback, blocking or not.
\<close>

fun submission :: "event \<Rightarrow> (tid \<times> callback \<times> bool) list" where
  "submission (Call t (QueueCommand cb blk)) = [(t, cb, blk)]"
| "submission (Call t (QueueReturnCommand cb blk)) = [(t, cb, blk)]"
| "submission e = []"


lemma call_step_cases [consumes 1, case_names QueueSync QueueAsync Shutdown ShutdownST
    GetAccessor Frames]:
  assumes "call_step cfg t c s = Some s'"
  obtains
    (QueueSync) cb blk where "submission (Call t c) = [(t, cb, blk)]" "t = mCoreThreadId s"
      "s' = s\<lparr>executed := executed s @ [(t, ncalls s, cb)], ncalls := ncalls s + 1,
                ppcs := (ppcs s)(t := RetSync (ncalls s))\<rparr>"
  | (QueueAsync) cb rv blk where "submission (Call t c) = [(t, cb, blk)]" "t \<noteq> mCoreThreadId s"
      "s' = s\<lparr>ncalls := ncalls s + 1, ppcs := (ppcs s)(t := QLock (ncalls s) cb rv blk)\<rparr>"
  | (Shutdown) "submission (Call t c) = []" "\<not> CM_FORCE_SINGLETHREADED_RENDERING cfg"
      "s' = s\<lparr>ppcs := (ppcs s)(t := SLock)\<rparr>"
  | (ShutdownST) "submission (Call t c) = []" "CM_FORCE_SINGLETHREADED_RENDERING cfg" "s' = s"
  | (GetAccessor) h ma mas where "submission (Call t c) = []"
      "s' = s\<lparr>heap_next := h, mAccessor := ma, mAccessors := mas\<rparr>"
  | (Frames) i fs where "submission (Call t c) = []"
      "s' = s\<lparr>mActiveFrameAlloc := i, mFrameAllocs := fs\<rparr>"
proof (cases c)
  case (QueueCommand cb blk)
  show ?thesis
  proof (cases "t = mCoreThreadId s")
    case True
    show ?thesis using assms QueueCommand True
      by (intro that(1)[of cb blk]) (auto simp: call_defs)
  next
    case False
    show ?thesis using assms QueueCommand False
      by (intro that(2)[of cb blk False]) (auto simp: call_defs)
  qed
next
  case (QueueReturnCommand cb blk)
  show ?thesis
  proof (cases "t = mCoreThreadId s")
    case True
    show ?thesis using assms QueueReturnCommand True
      by (intro that(1)[of cb blk]) (auto simp: call_defs)
  next
    case False
    show ?thesis using assms QueueReturnCommand False
      by (intro that(2)[of cb blk True]) (auto simp: call_defs)
  qed
next
  case ShutdownCoreThread
  show ?thesis
  proof (cases "CM_FORCE_SINGLETHREADED_RENDERING cfg")
    case True
    show ?thesis using assms ShutdownCoreThread True by (intro that(4)) (auto simp: call_defs)
  next
    case False
    show ?thesis using assms ShutdownCoreThread False by (intro that(3)) (auto simp: call_defs)
  qed
next
  case GetAccessor
  show ?thesis
  proof (cases "mAccessor s t")
    case None
    show ?thesis using assms GetAccessor None
      by (intro that(5)[where h = "heap_next s + 1"
            and ma = "(mAccessor s)(t := Some \<lparr>container_addr = heap_next s, accessor = t\<rparr>)"
            and mas = "mAccessors s @ [\<lparr>container_addr = heap_next s, accessor = t\<rparr>]"])
         (auto simp: call_defs)
  next
    case (Some a)
    show ?thesis using assms GetAccessor Some
      by (intro that(5)[where h = "heap_next s" and ma = "mAccessor s" and mas = "mAccessors s"])
         (auto simp: call_defs)
  qed
next
  case Update
  with assms obtain a where "mFrameAllocs s ! unat ((mActiveFrameAlloc s + 1) mod 2) = Some a"
    "s' = s\<lparr>mActiveFrameAlloc := (mActiveFrameAlloc s + 1) mod 2,
             mFrameAllocs := (mFrameAllocs s)[unat ((mActiveFrameAlloc s + 1) mod 2)
                := Some (FrameAlloc_clear a)]\<rparr>"
    by (auto simp: call_defs split: if_splits option.splits sum.splits)
  with Update show ?thesis
    by (intro that(6)[where i = "(mActiveFrameAlloc s + 1) mod 2"
          and fs = "(mFrameAllocs s)[unat ((mActiveFrameAlloc s + 1) mod 2)
                := Some (FrameAlloc_clear a)]"]) simp_all
next
  case (FrameAllocate b)
  with assms obtain a where
    "s' = s\<lparr>mFrameAllocs := (mFrameAllocs s)[unat (mActiveFrameAlloc s) := Some (FrameAlloc_alloc b a)]\<rparr>"
    by (auto simp: call_defs split: if_splits option.splits sum.splits)
  with FrameAllocate show ?thesis
    by (intro that(6)[where i = "mActiveFrameAlloc s"
          and fs = "(mFrameAllocs s)[unat (mActiveFrameAlloc s) := Some (FrameAlloc_alloc b a)]"])
       simp_all
qed


lemma step_cases [consumes 1, case_names Call Step Core]:
  assumes "step cfg e s = Some s'"
  obtains
    (Call) t c where "e = Call t c" "t \<noteq> pool_thread cfg" "ppcs s t = Idle"
      "call_step cfg t c s = Some s'"
  | (Step) t where "e = Step t" "t \<noteq> pool_thread cfg" "producer_step cfg t s = Some s'"
  | (Core) "e = Core" "core_step cfg s = Some s'"
  using assms by (cases e) (auto simp: step_def split: if_splits)

section \<open>Worker capacity\<close>

text \<open>
  \<open>holds_slot\<close> marks the points of \<^verbatim>\<open>runCoreThread\<close> between a \<^verbatim>\<open>removeWorker\<close>
  and the next \<^verbatim>\<open>addWorker\<close>. With \<open>w\<close> workers at construction the scheduler has
  \<open>w - 1\<close> at these points and \<open>w\<close> at all others.
\<close>

fun holds_slot :: "cpc \<Rightarrow> bool" where
  "holds_slot CNotSpawned = False"
| "holds_slot CStart = False"
| "holds_slot CWaitCall = False"
| "holds_slot CWaiting = False"
| "holds_slot CRemoveWorker = False"
| "holds_slot CExited = False"
| "holds_slot _ = True"

definition worker_inv :: "int \<Rightarrow> CoreThread \<Rightarrow> bool" where
  "worker_inv w s = (workers s = w - (if holds_slot (core_pc s) then 1 else 0))"

lemma step_worker_inv:
  assumes "worker_inv w s" and "step cfg e s = Some s'"
  shows "worker_inv w s'"
  using assms(2)
proof (cases rule: step_cases)
  case (Call t c)
  from Call(4) assms(1) show ?thesis
    by (cases rule: call_step_cases) (auto simp: worker_inv_def)
next
  case (Step t)
  from Step(3) assms(1) show ?thesis
    by (cases rule: producer_step_cases) (auto simp: worker_inv_def)
next
  case Core
  from Core(2) assms(1) show ?thesis
    by (cases rule: core_step_cases) (auto simp: worker_inv_def)
qed

lemma ctor_worker_inv: "CoreThread_ctor cfg t w = Inr s \<Longrightarrow> worker_inv w s"
  by (auto simp: CoreThread_ctor_def initCoreThread_def worker_inv_def split: if_splits)

lemma execution_worker_inv: "execution cfg t w es = Some s \<Longrightarrow> worker_inv w s"
  by (induction rule: execution_induct) (auto intro: ctor_worker_inv step_worker_inv)

section \<open>Mutual exclusion\<close>

text \<open>
  Each of the two mutexes is owned exactly by the thread that stands inside a section it
  protects; a forced single-threaded build never has a core thread.
\<close>

fun holds_queue_mutex :: "cpc \<Rightarrow> bool" where
  "holds_queue_mutex CTest = True"
| "holds_queue_mutex CShutdown = True"
| "holds_queue_mutex CAddWorker = True"
| "holds_queue_mutex CWaitCall = True"
| "holds_queue_mutex CRemoveWorker = True"
| "holds_queue_mutex CFlush = True"
| "holds_queue_mutex _ = False"

fun holds_notify_mutex :: "cpc \<Rightarrow> bool" where
  "holds_notify_mutex (CNotifyPush cid cs) = True"
| "holds_notify_mutex _ = False"

fun in_queue_section :: "ppc \<Rightarrow> bool" where
  "in_queue_section (QHold n cb rv blk) = True"
| "in_queue_section SHold = True"
| "in_queue_section _ = False"

fun in_notify_section :: "ppc \<Rightarrow> bool" where
  "in_notify_section (BScan n cid) = True"
| "in_notify_section _ = False"

definition lock_inv_core :: "config \<Rightarrow> CoreThread \<Rightarrow> bool" where
  "lock_inv_core cfg s =
     (ppcs s (pool_thread cfg) = Idle
      \<and> (holds_queue_mutex (core_pc s) \<longrightarrow> mCommandQueueMutex s = Some (pool_thread cfg))
      \<and> (holds_notify_mutex (core_pc s) \<longrightarrow> mCommandNotifyMutex s = Some (pool_thread cfg))
      \<and> (CM_FORCE_SINGLETHREADED_RENDERING cfg \<longrightarrow> core_pc s = CNotSpawned)
      \<and> (core_pc s = CShutdown \<longrightarrow> mCommandQueue s = [] \<and> mCoreThreadShutdown s))"

definition lock_inv_thread :: "CoreThread \<Rightarrow> tid \<Rightarrow> bool" where
  "lock_inv_thread s t =
     ((in_queue_section (ppcs s t) \<longrightarrow> mCommandQueueMutex s = Some t)
      \<and> (in_notify_section (ppcs s t) \<longrightarrow> mCommandNotifyMutex s = Some t))"

definition lock_inv :: "config \<Rightarrow> CoreThread \<Rightarrow> bool" where
  "lock_inv cfg s = (lock_inv_core cfg s \<and> (\<forall>t. lock_inv_thread s t))"

lemma lock_invD:
  "lock_inv cfg s \<Longrightarrow> lock_inv_core cfg s" "lock_inv cfg s \<Longrightarrow> lock_inv_thread s t"
  by (simp_all add: lock_inv_def)

lemma call_step_lock_inv:
  assumes "lock_inv cfg s" and "call_step cfg t c s = Some s'"
    and "t \<noteq> pool_thread cfg" and "ppcs s t = Idle"
  shows "lock_inv cfg s'"
proof -
  note C = lock_invD(1)[OF assms(1)] and T = lock_invD(2)[OF assms(1)]
  have core: "lock_inv_core cfg s'"
    using assms(2-4) C
    by (cases rule: call_step_cases) (simp_all add: lock_inv_core_def)
  have "lock_inv_thread s' u" for u
  proof (cases "u = t")
    case True
    from assms(2-4) T[of t] show ?thesis unfolding True
      by (cases rule: call_step_cases) (simp_all add: lock_inv_thread_def)
  next
    case False
    from assms(2-4) T[of u] False show ?thesis
      by (cases rule: call_step_cases) (simp_all add: lock_inv_thread_def)
  qed
  with core show ?thesis by (simp add: lock_inv_def)
qed

lemma producer_step_lock_inv:
  assumes "lock_inv cfg s" and "producer_step cfg t s = Some s'" and "t \<noteq> pool_thread cfg"
  shows "lock_inv cfg s'"
proof -
  note C = lock_invD(1)[OF assms(1)] and T = lock_invD(2)[OF assms(1)]
  have core: "lock_inv_core cfg s'"
    using assms(2,3) C T[of t]
    by (cases rule: producer_step_cases)
       (simp_all add: lock_inv_core_def lock_inv_thread_def, auto)
  have "lock_inv_thread s' u" for u
  proof (cases "u = t")
    case True
    from assms(2,3) T[of t] show ?thesis unfolding True
      by (cases rule: producer_step_cases) (simp_all add: lock_inv_thread_def)
  next
    case False
    from assms(2,3) T[of t] T[of u] False show ?thesis
      by (cases rule: producer_step_cases) (simp_all add: lock_inv_thread_def)
  qed
  with core show ?thesis by (simp add: lock_inv_def)
qed

lemma core_step_lock_inv:
  assumes "lock_inv cfg s" and "core_step cfg s = Some s'"
  shows "lock_inv cfg s'"
proof -
  note C = lock_invD(1)[OF assms(1)] and T = lock_invD(2)[OF assms(1)]
  have core: "lock_inv_core cfg s'"
    using assms(2) C
    by (cases rule: core_step_cases) (simp_all add: lock_inv_core_def)
  have "lock_inv_thread s' u" for u
    using assms(2) C T[of u]
    by (cases rule: core_step_cases)
       (simp_all add: lock_inv_core_def lock_inv_thread_def, auto)
  with core show ?thesis by (simp add: lock_inv_def)
qed

lemma step_lock_inv:
  assumes "lock_inv cfg s" and "step cfg e s = Some s'"
  shows "lock_inv cfg s'"
  using assms(2)
  by (cases rule: step_cases)
     (use assms(1) in \<open>auto intro: call_step_lock_inv producer_step_lock_inv core_step_lock_inv\<close>)

lemma ctor_lock_inv: "CoreThread_ctor cfg t w = Inr s \<Longrightarrow> lock_inv cfg s"
  by (auto simp: CoreThread_ctor_def initCoreThread_def lock_inv_def lock_inv_core_def
      lock_inv_thread_def split: if_splits)

lemma execution_lock_inv: "execution cfg t w es = Some s \<Longrightarrow> lock_inv cfg s"
  by (induction rule: execution_induct) (auto intro: ctor_lock_inv step_lock_inv)

section \<open>No command is lost, repeated or reordered\<close>

text \<open>
  \<open>pending\<close> is what the core thread has still to play: the rest of the batch it
  detached, then the shared queue. The call numbers the core thread has invoked, followed
  by those pending, are the call numbers that were queued, in the order of queueing.
\<close>

fun batch_of :: "cpc \<Rightarrow> QueuedCommand list" where
  "batch_of (CPlay cs) = cs"
| "batch_of (CNotifyLock cid cs) = cs"
| "batch_of (CNotifyPush cid cs) = cs"
| "batch_of (CNotifyAll cs) = cs"
| "batch_of _ = []"

definition pending :: "CoreThread \<Rightarrow> QueuedCommand list" where
  "pending s = batch_of (core_pc s) @ mCommandQueue s"

definition core_tags :: "tid \<Rightarrow> (tid \<times> nat \<times> callback) list \<Rightarrow> nat list" where
  "core_tags p xs = map (\<lambda>e. fst (snd e)) (filter (\<lambda>e. fst e = p) xs)"

definition other_tags :: "tid \<Rightarrow> (tid \<times> nat \<times> callback) list \<Rightarrow> nat list" where
  "other_tags p xs = map (\<lambda>e. fst (snd e)) (filter (\<lambda>e. fst e \<noteq> p) xs)"

lemma core_tags_simps [simp]:
  "core_tags p [] = []"
  "core_tags p (xs @ [(t, n, cb)]) = (if t = p then core_tags p xs @ [n] else core_tags p xs)"
  by (simp_all add: core_tags_def)

lemma other_tags_simps [simp]:
  "other_tags p [] = []"
  "other_tags p (xs @ [(t, n, cb)]) = (if t = p then other_tags p xs else other_tags p xs @ [n])"
  by (simp_all add: other_tags_def)

definition core_log :: "config \<Rightarrow> CoreThread \<Rightarrow> nat list" where
  "core_log cfg s = core_tags (pool_thread cfg) (executed s)"

definition conserve_inv :: "config \<Rightarrow> CoreThread \<Rightarrow> bool" where
  "conserve_inv cfg s = (core_log cfg s @ map call_no (pending s) = enqueued s)"

lemma step_conserve_inv:
  assumes "conserve_inv cfg s" and "step cfg e s = Some s'"
  shows "conserve_inv cfg s'"
  using assms(2)
proof (cases rule: step_cases)
  case (Call t c)
  from Call(4) Call(2) assms(1) show ?thesis
    by (cases rule: call_step_cases) (auto simp: conserve_inv_def pending_def core_log_def)
next
  case (Step t)
  from Step(3) assms(1) show ?thesis
    by (cases rule: producer_step_cases) (auto simp: conserve_inv_def pending_def core_log_def)
next
  case Core
  from Core(2) assms(1) show ?thesis
    by (cases rule: core_step_cases) (auto simp: conserve_inv_def pending_def core_log_def)
qed

lemma ctor_conserve_inv: "CoreThread_ctor cfg t w = Inr s \<Longrightarrow> conserve_inv cfg s"
  by (auto simp: CoreThread_ctor_def initCoreThread_def conserve_inv_def pending_def core_log_def
      split: if_splits)

lemma execution_conserve_inv: "execution cfg t w es = Some s \<Longrightarrow> conserve_inv cfg s"
  by (induction rule: execution_induct) (auto intro: ctor_conserve_inv step_conserve_inv)


section \<open>Call numbers\<close>















lemma head_not_in_core_tags:
  assumes "core_tags p xs @ map call_no (c # cs) @ ys = enq" and "distinct enq"
  shows "call_no c \<notin> set (core_tags p xs)" and "call_no c \<in> set enq"
  using assms by auto



section \<open>Notify ids\<close>

text \<open>
  \<open>awaiting\<close> gives the call number and notify id of a thread between taking its id and
  finding it in the completed list. The live ids are those in the completed list, the one
  the core thread is about to push, and those of the notifying commands still pending.
  While the counter has not wrapped, live ids are below the number handed out and
  pairwise different, two waiting threads have different ids, and the id of a waiting
  thread is either attached to its pending command or is live after its command ran.
\<close>

fun awaiting :: "ppc \<Rightarrow> (nat \<times> u32) option" where
  "awaiting (QNotifyAll n blk cid) = (if blk then Some (n, cid) else None)"
| "awaiting (BLock n cid) = Some (n, cid)"
| "awaiting (BScan n cid) = Some (n, cid)"
| "awaiting (BWaiting n cid) = Some (n, cid)"
| "awaiting _ = None"

fun notifying :: "cpc \<Rightarrow> u32 list" where
  "notifying (CNotifyLock cid cs) = [cid]"
| "notifying (CNotifyPush cid cs) = [cid]"
| "notifying _ = []"

definition notify_entries :: "QueuedCommand list \<Rightarrow> (nat \<times> u32) list" where
  "notify_entries qs = map (\<lambda>q. (call_no q, callbackId q)) (filter notifyWhenComplete qs)"

lemma notify_entries_simps [simp]:
  "notify_entries [] = []"
  "notify_entries (xs @ ys) = notify_entries xs @ notify_entries ys"
  "notify_entries (q # qs) =
     (if notifyWhenComplete q then (call_no q, callbackId q) # notify_entries qs
      else notify_entries qs)"
  by (simp_all add: notify_entries_def)

lemma entry_id_live: "(n, c) \<in> set (notify_entries qs) \<Longrightarrow> c \<in> snd ` set (notify_entries qs)"
  by force

definition live_ids :: "CoreThread \<Rightarrow> u32 list" where
  "live_ids s =
     mCommandsCompleted s @ notifying (core_pc s) @ map snd (notify_entries (pending s))"

definition no_wrap :: "CoreThread \<Rightarrow> bool" where
  "no_wrap s = (nalloc s \<le> 2 ^ 32)"

lemma unat_of_nat_u32 [simp]: "n < 4294967296 \<Longrightarrow> unat (of_nat n :: u32) = n"
  by (simp add: unat_of_nat)

lemma fresh_id:
  assumes "\<forall>c \<in> S. unat c < n" and "n < 4294967296"
  shows "(of_nat n :: u32) \<notin> S"
proof
  assume "of_nat n \<in> S"
  with assms(1) have "unat (of_nat n :: u32) < n" by blast
  with assms(2) show False by simp
qed

definition id_inv_global :: "CoreThread \<Rightarrow> bool" where
  "id_inv_global s =
     (mMaxCommandNotifyId s = of_nat (nalloc s)
      \<and> (no_wrap s \<longrightarrow> (\<forall>c \<in> set (live_ids s). unat c < nalloc s) \<and> distinct (live_ids s)))"

definition id_inv_thread :: "config \<Rightarrow> CoreThread \<Rightarrow> tid \<Rightarrow> bool" where
  "id_inv_thread cfg s t =
     (no_wrap s \<longrightarrow>
        (\<forall>n c. awaiting (ppcs s t) = Some (n, c) \<longrightarrow>
           unat c < nalloc s
           \<and> ((n, c) \<in> set (notify_entries (pending s))
              \<or> (n \<in> set (core_log cfg s)
                 \<and> c \<in> set (mCommandsCompleted s @ notifying (core_pc s)))))
        \<and> (\<not> CM_FORCE_SINGLETHREADED_RENDERING cfg \<longrightarrow>
             (\<forall>n. ppcs s t = RetQueued n True \<longrightarrow> n \<in> set (core_log cfg s))))"

definition id_inv_pair :: "CoreThread \<Rightarrow> tid \<Rightarrow> tid \<Rightarrow> bool" where
  "id_inv_pair s t u =
     (no_wrap s \<longrightarrow> t \<noteq> u \<longrightarrow>
        (\<forall>n c m d. awaiting (ppcs s t) = Some (n, c) \<longrightarrow> awaiting (ppcs s u) = Some (m, d)
           \<longrightarrow> c \<noteq> d))"

definition id_inv :: "config \<Rightarrow> CoreThread \<Rightarrow> bool" where
  "id_inv cfg s =
     (id_inv_global s \<and> (\<forall>t. id_inv_thread cfg s t) \<and> (\<forall>t u. id_inv_pair s t u))"

lemma id_invD:
  "id_inv cfg s \<Longrightarrow> id_inv_global s"
  "id_inv cfg s \<Longrightarrow> id_inv_thread cfg s t"
  "id_inv cfg s \<Longrightarrow> id_inv_pair s t u"
  by (simp_all add: id_inv_def)

lemmas id_defs = id_inv_global_def id_inv_thread_def id_inv_pair_def live_ids_def no_wrap_def
  pending_def core_log_def

lemma call_step_id_inv:
  assumes "id_inv cfg s" and "call_step cfg t c s = Some s'"
    and "t \<noteq> pool_thread cfg" and "ppcs s t = Idle"
  shows "id_inv cfg s'"
proof -
  note G = id_invD(1)[OF assms(1)] and T = id_invD(2)[OF assms(1)]
    and P = id_invD(3)[OF assms(1)]
  have glob: "id_inv_global s'"
    using assms(2-4) G
    by (cases rule: call_step_cases) (simp_all add: id_defs)
  have thr: "id_inv_thread cfg s' u" for u
  proof (cases "u = t")
    case True
    from assms(2-4) T[of t] show ?thesis unfolding True
      by (cases rule: call_step_cases) (simp_all add: id_defs)
  next
    case False
    from assms(2-4) T[of u] False show ?thesis
      by (cases rule: call_step_cases) (simp_all add: id_defs)
  qed
  have pair: "id_inv_pair s' u v" for u v
  proof (cases "u = t")
    case ut: True
    show ?thesis
    proof (cases "v = t")
      case True
      with ut show ?thesis by (simp add: id_inv_pair_def)
    next
      case False
      from assms(2-4) False show ?thesis unfolding ut
        by (cases rule: call_step_cases) (simp_all add: id_defs)
    qed
  next
    case ut: False
    show ?thesis
    proof (cases "v = t")
      case True
      from assms(2-4) ut show ?thesis unfolding True
        by (cases rule: call_step_cases) (simp_all add: id_defs)
    next
      case False
      from assms(2-4) P[of u v] ut False show ?thesis
        by (cases rule: call_step_cases) (simp_all add: id_defs)
    qed
  qed
  from glob thr pair show ?thesis by (simp add: id_inv_def)
qed

lemma core_step_id_inv:
  assumes "id_inv cfg s" and "core_step cfg s = Some s'"
  shows "id_inv cfg s'"
proof -
  note G = id_invD(1)[OF assms(1)] and T = id_invD(2)[OF assms(1)]
    and P = id_invD(3)[OF assms(1)]
  have glob: "id_inv_global s'"
    using assms(2) G
    by (cases rule: core_step_cases) (simp_all add: id_defs, auto?)
  have thr: "id_inv_thread cfg s' u" for u
    using assms(2) T[of u]
    by (cases rule: core_step_cases) (simp_all add: id_defs, auto?)
  have pair: "id_inv_pair s' u v" for u v
    using assms(2) P[of u v]
    by (cases rule: core_step_cases) (simp_all add: id_defs)
  from glob thr pair show ?thesis by (simp add: id_inv_def)
qed


lemma id_inv_globalD:
  assumes "id_inv_global s"
  shows "mMaxCommandNotifyId s = of_nat (nalloc s)"
    and "no_wrap s \<Longrightarrow> \<forall>c \<in> set (live_ids s). unat c < nalloc s"
    and "no_wrap s \<Longrightarrow> distinct (live_ids s)"
  using assms by (simp_all add: id_inv_global_def)

lemma producer_step_id_inv_global:
  assumes G: "id_inv_global s" and st: "producer_step cfg t s = Some s'"
  shows "id_inv_global s'"
  using st
proof (cases rule: producer_step_cases)
  case (QHoldB n cb rv)
  note mx = id_inv_globalD(1)[OF G]
  have L: "live_ids s' = live_ids s @ [of_nat (nalloc s)]"
    using QHoldB(2) mx by (simp add: live_ids_def pending_def)
  have na: "nalloc s' = Suc (nalloc s)" and mx': "mMaxCommandNotifyId s' = of_nat (nalloc s')"
    using QHoldB(2) mx by simp_all
  have "(\<forall>c \<in> set (live_ids s'). unat c < nalloc s') \<and> distinct (live_ids s')"
    if nw': "no_wrap s'"
  proof -
    from nw' na have lt: "nalloc s < 4294967296" and nw: "no_wrap s"
      by (simp_all add: no_wrap_def)
    note B = id_inv_globalD(2)[OF G nw] and D = id_inv_globalD(3)[OF G nw]
    have fresh: "of_nat (nalloc s) \<notin> set (live_ids s)" using B lt by (rule fresh_id)
    have "\<forall>c \<in> set (live_ids s'). unat c < nalloc s'"
      using B lt by (auto simp: L na less_Suc_eq)
    moreover have "distinct (live_ids s')" using D fresh by (simp add: L)
    ultimately show ?thesis by blast
  qed
  with mx' show ?thesis by (simp add: id_inv_global_def)
next
  case (BFound n cid)
  have L: "live_ids s' = remove1 cid (live_ids s)"
    using BFound(2,3) by (simp add: live_ids_def pending_def remove1_append)
  have na: "nalloc s' = nalloc s" and mx': "mMaxCommandNotifyId s' = of_nat (nalloc s')"
    using BFound(3) id_inv_globalD(1)[OF G] by simp_all
  have "(\<forall>c \<in> set (live_ids s'). unat c < nalloc s') \<and> distinct (live_ids s')"
    if nw': "no_wrap s'"
  proof -
    from nw' na have nw: "no_wrap s" by (simp add: no_wrap_def)
    note B = id_inv_globalD(2)[OF G nw] and D = id_inv_globalD(3)[OF G nw]
    from B D show ?thesis by (simp add: L na)
  qed
  with mx' show ?thesis by (simp add: id_inv_global_def)
qed (use G in \<open>simp_all add: id_defs\<close>)


lemma id_inv_threadD:
  assumes "id_inv_thread cfg s t" and "no_wrap s"
  shows "awaiting (ppcs s t) = Some (n, c) \<Longrightarrow> unat c < nalloc s"
    and "awaiting (ppcs s t) = Some (n, c) \<Longrightarrow>
           (n, c) \<in> set (notify_entries (pending s))
           \<or> (n \<in> set (core_log cfg s)
              \<and> c \<in> set (mCommandsCompleted s @ notifying (core_pc s)))"
    and "\<not> CM_FORCE_SINGLETHREADED_RENDERING cfg \<Longrightarrow> ppcs s t = RetQueued n True \<Longrightarrow>
           n \<in> set (core_log cfg s)"
  using assms by (simp_all add: id_inv_thread_def)

lemma completed_not_pending:
  assumes "distinct (live_ids s)" and "c \<in> set (mCommandsCompleted s)"
  shows "(n, c) \<notin> set (notify_entries (pending s))"
proof
  assume "(n, c) \<in> set (notify_entries (pending s))"
  then have "c \<in> snd ` set (notify_entries (pending s))" by (rule entry_id_live)
  with assms show False by (auto simp: live_ids_def)
qed

lemma producer_step_id_inv_self:
  assumes G: "id_inv_global s" and T: "id_inv_thread cfg s t"
    and st: "producer_step cfg t s = Some s'"
  shows "id_inv_thread cfg s' t"
  using st
proof (cases rule: producer_step_cases)
  case (QHoldB n cb rv)
  note mx = id_inv_globalD(1)[OF G]
  have "unat (mMaxCommandNotifyId s) < nalloc s'" if "no_wrap s'"
    using that QHoldB(2) mx by (simp add: no_wrap_def)
  moreover have "(n, mMaxCommandNotifyId s) \<in> set (notify_entries (pending s'))"
    using QHoldB(2) by (simp add: pending_def)
  moreover have "ppcs s' t = QNotifyAll n True (mMaxCommandNotifyId s)"
    using QHoldB(2) by simp
  ultimately show ?thesis by (simp add: id_inv_thread_def)
next
  case (BFound n cid)
  have pc: "ppcs s' t = RetQueued n True" and cl: "core_log cfg s' = core_log cfg s"
    and na: "nalloc s' = nalloc s"
    using BFound(3) by (simp_all add: core_log_def)
  have "n \<in> set (core_log cfg s)" if nw: "no_wrap s"
  proof -
    have "awaiting (ppcs s t) = Some (n, cid)" using BFound(1) by simp
    from id_inv_threadD(2)[OF T nw this]
      completed_not_pending[OF id_inv_globalD(3)[OF G nw] BFound(2)]
    show ?thesis by blast
  qed
  then show ?thesis by (simp add: id_inv_thread_def pc cl no_wrap_def na)
qed (use T in \<open>simp_all add: id_defs\<close>)

lemma producer_step_id_inv_other:
  assumes T: "id_inv_thread cfg s u" and Tt: "id_inv_thread cfg s t" and P: "id_inv_pair s u t"
    and st: "producer_step cfg t s = Some s'" and ne: "u \<noteq> t"
  shows "id_inv_thread cfg s' u"
  using st
proof (cases rule: producer_step_cases)
  case (BFound n cid)
  have "awaiting (ppcs s t) = Some (n, cid)" using BFound(1) by simp
  with P ne have "\<And>m d. no_wrap s \<Longrightarrow> awaiting (ppcs s u) = Some (m, d) \<Longrightarrow> d \<noteq> cid"
    by (simp add: id_inv_pair_def)
  with T ne BFound(3) show ?thesis
    by (auto simp: id_defs)
next
  case (QHoldB n cb rv)
  have "no_wrap s" if "no_wrap s'" using that QHoldB(2) by (simp add: no_wrap_def)
  with T ne QHoldB(2) show ?thesis
    by (auto simp: id_inv_thread_def pending_def core_log_def)
qed (use T ne in \<open>simp_all add: id_defs\<close>)

lemma producer_step_id_inv_pair_self:
  assumes G: "id_inv_global s" and T: "id_inv_thread cfg s v" and P: "id_inv_pair s t v"
    and st: "producer_step cfg t s = Some s'" and ne: "v \<noteq> t"
  shows "id_inv_pair s' t v \<and> id_inv_pair s' v t"
  using st
proof (cases rule: producer_step_cases)
  case (QHoldB n cb rv)
  note mx = id_inv_globalD(1)[OF G]
  have "d \<noteq> mMaxCommandNotifyId s" if "no_wrap s'" and "awaiting (ppcs s v) = Some (m, d)" for m d
  proof -
    from that(1) QHoldB(2) have lt: "nalloc s < 4294967296" and nw: "no_wrap s"
      by (simp_all add: no_wrap_def)
    from id_inv_threadD(1)[OF T nw that(2)] have "unat d < nalloc s" .
    moreover have "unat (mMaxCommandNotifyId s) = nalloc s" using mx lt by simp
    ultimately show ?thesis by auto
  qed
  with ne QHoldB(2) show ?thesis
    by (auto simp: id_inv_pair_def)
qed (use P ne in \<open>auto simp: id_inv_pair_def no_wrap_def\<close>)

lemma producer_step_id_inv_pair_other:
  assumes P: "id_inv_pair s u v"
    and st: "producer_step cfg t s = Some s'" and ne: "u \<noteq> t" "v \<noteq> t"
  shows "id_inv_pair s' u v"
  using st
  by (cases rule: producer_step_cases) (use P ne in \<open>simp_all add: id_inv_pair_def no_wrap_def\<close>)

lemma producer_step_id_inv:
  assumes "id_inv cfg s" and "producer_step cfg t s = Some s'"
  shows "id_inv cfg s'"
proof -
  note G = id_invD(1)[OF assms(1)] and T = id_invD(2)[OF assms(1)]
    and P = id_invD(3)[OF assms(1)]
  have glob: "id_inv_global s'"
    using G assms(2) by (rule producer_step_id_inv_global)
  have thr: "id_inv_thread cfg s' u" for u
  proof (cases "u = t")
    case True
    show ?thesis unfolding True using G T assms(2) by (rule producer_step_id_inv_self)
  next
    case False
    show ?thesis using T T P assms(2) False by (rule producer_step_id_inv_other)
  qed
  have pair: "id_inv_pair s' u v" for u v
  proof (cases "u = t")
    case ut: True
    show ?thesis
    proof (cases "v = t")
      case True
      with ut show ?thesis by (simp add: id_inv_pair_def)
    next
      case False
      from producer_step_id_inv_pair_self[OF G T P assms(2) False]
      show ?thesis unfolding ut by blast
    qed
  next
    case ut: False
    show ?thesis
    proof (cases "v = t")
      case True
      from producer_step_id_inv_pair_self[OF G T P assms(2) ut]
      show ?thesis unfolding True by blast
    next
      case False
      show ?thesis using P assms(2) ut False by (rule producer_step_id_inv_pair_other)
    qed
  qed
  from glob thr pair show ?thesis by (simp add: id_inv_def)
qed


section \<open>The invariants hold in every execution\<close>




lemma step_id_inv:
  assumes "id_inv cfg s" and "step cfg e s = Some s'"
  shows "id_inv cfg s'"
  using assms(2)
  by (cases rule: step_cases)
     (use assms(1) in \<open>auto intro: call_step_id_inv producer_step_id_inv core_step_id_inv\<close>)

lemma ctor_id_inv: "CoreThread_ctor cfg t w = Inr s \<Longrightarrow> id_inv cfg s"
  by (auto simp: CoreThread_ctor_def initCoreThread_def id_inv_def id_defs split: if_splits)

lemma execution_id_inv: "execution cfg t w es = Some s \<Longrightarrow> id_inv cfg s"
  by (induction rule: execution_induct) (auto intro: ctor_id_inv step_id_inv)






section \<open>Which call is which\<close>























section \<open>Wraparound of the notify-id counter\<close>

text \<open>
  \<^verbatim>\<open>mMaxCommandNotifyId\<close> is a \<^verbatim>\<open>UINT32\<close>: after \<open>2 ^ 32\<close> allocations it is 0 again.
  The executions below reach that point with two producer threads. Thread 2 makes a
  blocking submission (notify id 0); the core thread invokes the command and pushes id 0;
  thread 2 is not scheduled again. Thread 3 then makes \<open>2 ^ 32 - 1\<close> blocking submissions,
  each invoked by the core thread and waited for to the end. \<open>wrap_state k\<close> is the state
  with \<open>k\<close> submissions made.
\<close>

lemma run_append:
  "run cfg (xs @ ys) s = (case run cfg xs s of None \<Rightarrow> None | Some s' \<Rightarrow> run cfg ys s')"
  by (induction xs arbitrary: s) (auto split: option.splits)

lemma execution_append:
  "execution cfg t w es = Some s \<Longrightarrow> execution cfg t w (es @ es') = run cfg es' s"
  by (simp add: execution_def run_append split: sum.splits)

definition first_waiter :: "event list" where
  "first_waiter =
     [Core, Call 2 (QueueCommand 7 True), Step 2, Step 2, Step 2,
      Core, Core, Core, Core, Core, Core, Core, Core]"

definition round_trip :: "event list" where
  "round_trip =
     [Call 3 (QueueCommand 7 True), Step 3, Step 3, Step 3,
      Core, Core, Core, Core, Core, Core, Core, Core,
      Step 3, Step 3, Step 3]"

definition until_wraparound :: "event list" where
  "until_wraparound = first_waiter @ concat (replicate 4294967295 round_trip)"

definition wrap_state :: "nat \<Rightarrow> CoreThread" where
  "wrap_state k =
     \<lparr>mCoreThreadShutdown = False,
      mCommandQueue = [],
      mMaxCommandNotifyId = of_nat k,
      mCommandsCompleted = [0],
      mCoreThreadId = 1,
      mSyncedCoreAccessor = Some 1,
      mActiveFrameAlloc = 0,
      mFrameAllocs = [Some FrameAlloc_new, Some FrameAlloc_new],
      mAccessor = (\<lambda>_. None),
      mAccessors = [],
      heap_next = 0,
      workers = 3,
      mCommandQueueMutex = None,
      mCommandNotifyMutex = None,
      ppcs = (\<lambda>_. Idle)(2 := BLock 0 0),
      core_pc = CLock,
      executed = map (\<lambda>i. (1, i, 7)) [0..<k],
      enqueued = [0..<k],
      ncalls = k,
      nalloc = k\<rparr>"

lemma first_waiter_state: "execution cfg_mt 0 4 first_waiter = Some (wrap_state 1)"
  by (simp add: first_waiter_def wrap_state_def model_defs)

lemma round_trip_state:
  assumes "0 < k" and "k < 2 ^ 32"
  shows "run cfg_mt round_trip (wrap_state k) = Some (wrap_state (Suc k))"
proof -
  have "unat (of_nat k :: u32) = k" using assms(2) by (simp add: unat_of_nat)
  with assms(1) have nz: "(of_nat k :: u32) \<noteq> 0" "(0 :: u32) \<noteq> of_nat k"
    by auto
  show ?thesis
    using nz by (simp add: round_trip_def wrap_state_def model_defs fun_upd_idem_iff)
qed

lemma round_trips_state:
  assumes "0 < k" and "k + m \<le> 2 ^ 32"
  shows "run cfg_mt (concat (replicate m round_trip)) (wrap_state k) = Some (wrap_state (k + m))"
  using assms
proof (induction m arbitrary: k)
  case 0
  then show ?case by simp
next
  case (Suc m)
  from Suc.prems have "run cfg_mt round_trip (wrap_state k) = Some (wrap_state (Suc k))"
    by (intro round_trip_state) simp_all
  moreover from Suc.prems
  have "run cfg_mt (concat (replicate m round_trip)) (wrap_state (Suc k))
      = Some (wrap_state (Suc k + m))"
    by (intro Suc.IH) simp_all
  ultimately show ?case by (simp add: run_append)
qed

lemma until_wraparound_state:
  "execution cfg_mt 0 4 until_wraparound = Some (wrap_state 4294967296)"
proof -
  have "run cfg_mt (concat (replicate 4294967295 round_trip)) (wrap_state 1)
      = Some (wrap_state (1 + 4294967295))"
    by (rule round_trips_state) simp_all
  then show ?thesis
    unfolding until_wraparound_def
    by (simp only: execution_append[OF first_waiter_state]) simp
qed

lemma wrap_id: "(of_nat 4294967296 :: u32) = 0"
  by simp

lemma after_wraparound:
  "execution cfg_mt 0 4 (until_wraparound @ es) = run cfg_mt es (wrap_state 4294967296)"
  "state_after cfg_mt 0 4 (until_wraparound @ es) = the (run cfg_mt es (wrap_state 4294967296))"
  "state_after cfg_mt 0 4 until_wraparound = wrap_state 4294967296"
  by (simp_all only: state_after_def execution_append[OF until_wraparound_state]
      until_wraparound_state option.sel)

text \<open>
  With the counter back at 0, thread 3 submits once more and is given id 0, which is
  still in the completed list for thread 2.
\<close>

lemma wrapped_submission:
  assumes "(of_nat k :: u32) = 0"
  shows "run cfg_mt [Call 3 (QueueCommand 7 True), Step 3, Step 3] (wrap_state k) \<noteq> None"
    and "nalloc (wrap_state k) = k"
    and "mMaxCommandNotifyId (wrap_state k) = 0"
    and "ppcs (the (run cfg_mt [Call 3 (QueueCommand 7 True), Step 3, Step 3] (wrap_state k))) 2
          = BLock 0 0"
    and "ppcs (the (run cfg_mt [Call 3 (QueueCommand 7 True), Step 3, Step 3] (wrap_state k))) 3
          = QNotifyAll k True 0"
    and "mCommandsCompleted
           (the (run cfg_mt [Call 3 (QueueCommand 7 True), Step 3, Step 3] (wrap_state k))) = [0]"
    and "map callbackId (filter notifyWhenComplete (mCommandQueue
           (the (run cfg_mt [Call 3 (QueueCommand 7 True), Step 3, Step 3] (wrap_state k))))) = [0]"
  using assms by (simp_all add: wrap_state_def model_defs)

text \<open>Thread 3 goes on into \<^verbatim>\<open>blockUntilCommandCompleted\<close>, finds that 0 and returns.\<close>

lemma wrapped_return:
  assumes "(of_nat k :: u32) = 0"
  shows "run cfg_mt [Call 3 (QueueCommand 7 True), Step 3, Step 3, Step 3, Step 3, Step 3]
           (wrap_state k) \<noteq> None"
    and "ppcs (the (run cfg_mt
           [Call 3 (QueueCommand 7 True), Step 3, Step 3, Step 3, Step 3, Step 3]
           (wrap_state k))) 3 = RetQueued k True"
    and "count_list (map (\<lambda>e. fst (snd e)) (executed (the (run cfg_mt
           [Call 3 (QueueCommand 7 True), Step 3, Step 3, Step 3, Step 3, Step 3]
           (wrap_state k))))) k = 0"
    and "map call_no (mCommandQueue (the (run cfg_mt
           [Call 3 (QueueCommand 7 True), Step 3, Step 3, Step 3, Step 3, Step 3]
           (wrap_state k)))) = [k]"
    and "mCommandsCompleted (the (run cfg_mt
           [Call 3 (QueueCommand 7 True), Step 3, Step 3, Step 3, Step 3, Step 3]
           (wrap_state k))) = []"
  using assms by (auto simp: wrap_state_def model_defs count_list_0_iff)


text \<open>
  Or the core thread invokes the new command first and pushes its id: the completed list
  holds 0 twice.
\<close>

lemma wrapped_push:
  assumes "(of_nat k :: u32) = 0"
  shows "run cfg_mt [Call 3 (QueueReturnCommand 8 True), Step 3, Step 3,
                     Core, Core, Core, Core, Core, Core] (wrap_state k) \<noteq> None"
    and "mCommandsCompleted (the (run cfg_mt [Call 3 (QueueReturnCommand 8 True), Step 3, Step 3,
                     Core, Core, Core, Core, Core, Core] (wrap_state k))) = [0, 0]"
    and "count_list (mCommandsCompleted (the (run cfg_mt
                    [Call 3 (QueueReturnCommand 8 True), Step 3, Step 3,
                     Core, Core, Core, Core, Core, Core] (wrap_state k)))) 0 = 2"
  using assms by (simp_all add: wrap_state_def model_defs)

section \<open>Blocking submissions\<close>







section \<open>Notify ids, shutdown, completion and worker capacity\<close>

lemma step_state_after:
  assumes "execution cfg t w (es @ [e]) \<noteq> None"
  shows "execution cfg t w es = Some (state_after cfg t w es)"
    and "step cfg e (state_after cfg t w es) = Some (state_after cfg t w (es @ [e]))"
  using assms by (auto simp: execution_snoc state_after_def split: option.splits)

fun flushing_or_executing :: "cpc \<Rightarrow> bool" where
  "flushing_or_executing CFlush = True"
| "flushing_or_executing (CPlay cs) = True"
| "flushing_or_executing (CNotifyLock cid cs) = True"
| "flushing_or_executing (CNotifyPush cid cs) = True"
| "flushing_or_executing (CNotifyAll cs) = True"
| "flushing_or_executing _ = False"

definition two_waiters :: "event list" where
  "two_waiters =
     [Core, Call 2 (QueueCommand 7 True), Step 2, Step 2, Step 2,
      Call 3 (QueueReturnCommand 8 True), Step 3, Step 3,
      Core, Core, Core, Core, Core, Core, Step 2]"

definition three_commands_then_shutdown :: "event list" where
  "three_commands_then_shutdown =
     [Core,
      Call 2 (QueueCommand 10 False), Step 2, Step 2, Step 2, Step 2,
      Call 2 (QueueCommand 11 False), Step 2, Step 2, Step 2, Step 2,
      Call 2 (QueueReturnCommand 12 False), Step 2, Step 2, Step 2, Step 2,
      Call 0 ShutdownCoreThread, Step 0, Step 0, Step 0, Step 0,
      Core, Core, Core, Core, Core, Core, Core, Core, Core]"

lemma flushing_holds_slot: "flushing_or_executing pc \<Longrightarrow> holds_slot pc"
  by (cases pc) auto

lemma step_core_pc_other:
  assumes "step cfg e s = Some s'" and "e \<noteq> Core"
  shows "core_pc s' = core_pc s"
  using assms(1)
proof (cases rule: step_cases)
  case (Call t c)
  from Call(4) show ?thesis by (cases rule: call_step_cases) simp_all
next
  case (Step t)
  from Step(3) show ?thesis by (cases rule: producer_step_cases) simp_all
next
  case Core
  with assms(2) show ?thesis by simp
qed

lemma core_step_wait_pairing:
  assumes "worker_inv w s" and "core_step cfg s = Some s'"
  shows "(core_pc s' = CWaiting \<and> core_pc s \<noteq> CWaiting \<longrightarrow> core_pc s = CWaitCall)
     \<and> (core_pc s' = CWaitCall \<and> core_pc s \<noteq> CWaitCall \<longrightarrow>
           core_pc s = CAddWorker \<and> s' = (addWorker s)\<lparr>core_pc := CWaitCall\<rparr>
           \<and> workers s = w - 1 \<and> workers s' = w)
     \<and> (core_pc s = CWaiting \<and> core_pc s' \<noteq> CWaiting \<longrightarrow> core_pc s' = CRemoveWorker)
     \<and> (core_pc s = CRemoveWorker \<and> core_pc s' \<noteq> CRemoveWorker \<longrightarrow>
           core_pc s' = CTest \<and> s' = (removeWorker s)\<lparr>core_pc := CTest\<rparr>
           \<and> workers s = w \<and> workers s' = w - 1)"
  using assms(2,1)
  by (cases rule: core_step_cases) (simp_all add: addWorker_def removeWorker_def worker_inv_def)

text \<open>
  C4 as stated fails once the counter has wrapped: it is back at 0 after \<open>2 ^ 32\<close>
  allocations, so it does not increase over the whole lifetime. Thread 2 still stands in
  its blocking submission with id 0, which is in the completed list, when thread 3 is
  given id 0 for the command it queues; thread 3 then leaves
  \<^verbatim>\<open>blockUntilCommandCompleted\<close> on the entry that was pushed for thread 2, with its own
  command still in the queue.
\<close>

theorem notify_ids_wraparound_counterexample:
  "(execution cfg_mt 0 4 (until_wraparound @ [Call 3 (QueueCommand 7 True), Step 3, Step 3])
      \<noteq> None
    \<and> nalloc (state_after cfg_mt 0 4 until_wraparound) = 4294967296
    \<and> mMaxCommandNotifyId (state_after cfg_mt 0 4 until_wraparound) = 0
    \<and> ppcs (state_after cfg_mt 0 4
          (until_wraparound @ [Call 3 (QueueCommand 7 True), Step 3, Step 3])) 2 = BLock 0 0
    \<and> ppcs (state_after cfg_mt 0 4
          (until_wraparound @ [Call 3 (QueueCommand 7 True), Step 3, Step 3])) 3
        = QNotifyAll 4294967296 True 0
    \<and> mCommandsCompleted (state_after cfg_mt 0 4
          (until_wraparound @ [Call 3 (QueueCommand 7 True), Step 3, Step 3])) = [0]
    \<and> map callbackId (filter notifyWhenComplete (mCommandQueue (state_after cfg_mt 0 4
          (until_wraparound @ [Call 3 (QueueCommand 7 True), Step 3, Step 3])))) = [0])
   \<and> (execution cfg_mt 0 4 (until_wraparound @
          [Call 3 (QueueCommand 7 True), Step 3, Step 3, Step 3, Step 3, Step 3]) \<noteq> None
    \<and> ppcs (state_after cfg_mt 0 4 (until_wraparound @
          [Call 3 (QueueCommand 7 True), Step 3, Step 3, Step 3, Step 3, Step 3])) 3
        = RetQueued 4294967296 True
    \<and> map call_no (mCommandQueue (state_after cfg_mt 0 4 (until_wraparound @
          [Call 3 (QueueCommand 7 True), Step 3, Step 3, Step 3, Step 3, Step 3])))
        = [4294967296]
    \<and> mCommandsCompleted (state_after cfg_mt 0 4 (until_wraparound @
          [Call 3 (QueueCommand 7 True), Step 3, Step 3, Step 3, Step 3, Step 3])) = [])"
  by (simp only: after_wraparound)
     (intro conjI wrapped_submission[OF wrap_id] wrapped_return[OF wrap_id])



text \<open>
  C5. The core thread leaves its loop by one step only: its own, from the branch taken at
  the test of line 77 when the shutdown flag is set and the queue is empty. At that step
  the queue is empty, every command ever put in the queue has been invoked, in the order
  of queueing, and the step calls \<^verbatim>\<open>addWorker\<close>, which gives the reserved slot back: the
  scheduler has its initial number of workers again.
\<close>

theorem shutdown_drains_queue:
  assumes "execution cfg t0 w es = Some s" and "step cfg e s = Some s'"
    and "core_pc s' = CExited" and "core_pc s \<noteq> CExited"
  shows "e = Core \<and> core_pc s = CShutdown
     \<and> mCoreThreadShutdown s \<and> mCommandQueue s = [] \<and> mCommandQueue s' = []
     \<and> core_log cfg s' = enqueued s'
     \<and> workers s' = workers s + 1 \<and> workers s' = w
     \<and> (\<forall>s0. core_pc s0 = CTest \<and> core_step cfg s0 = Some s \<longrightarrow>
           mCoreThreadShutdown s0 \<and> mCommandQueue s0 = [])"
proof -
  have L: "lock_inv_core cfg s" using execution_lock_inv[OF assms(1)] by (rule lock_invD(1))
  have C: "conserve_inv cfg s" using assms(1) by (rule execution_conserve_inv)
  have W: "worker_inv w s" using assms(1) by (rule execution_worker_inv)
  have e: "e = Core" using step_core_pc_other[OF assms(2)] assms(3,4) by auto
  then have st: "core_step cfg s = Some s'" using assms(2) by (simp add: step_def)
  have main: "core_pc s = CShutdown \<and> mCoreThreadShutdown s \<and> mCommandQueue s = []
      \<and> mCommandQueue s' = [] \<and> core_log cfg s' = enqueued s'
      \<and> workers s' = workers s + 1 \<and> workers s' = w"
    using st assms(3,4) L C W
    by (cases rule: core_step_cases)
       (simp_all add: lock_inv_core_def conserve_inv_def pending_def core_log_def worker_inv_def)
  have "mCoreThreadShutdown s0 \<and> mCommandQueue s0 = []"
    if "core_pc s0 = CTest" and "core_step cfg s0 = Some s" for s0
    using that(2) that(1) main by (cases rule: core_step_cases) simp_all
  with e main show ?thesis by blast
qed

theorem shutdown_drains_queue_witness:
  "execution cfg_mt 0 4 (three_commands_then_shutdown @ [Core]) \<noteq> None
   \<and> core_pc (state_after cfg_mt 0 4 three_commands_then_shutdown) = CShutdown
   \<and> core_pc (state_after cfg_mt 0 4 (three_commands_then_shutdown @ [Core])) = CExited
   \<and> enqueued (state_after cfg_mt 0 4 (three_commands_then_shutdown @ [Core])) = [0, 1, 2]
   \<and> executed (state_after cfg_mt 0 4 (three_commands_then_shutdown @ [Core]))
       = [(1, 0, 10), (1, 1, 11), (1, 2, 12)]
   \<and> core_log cfg_mt (state_after cfg_mt 0 4 (three_commands_then_shutdown @ [Core]))
       = enqueued (state_after cfg_mt 0 4 (three_commands_then_shutdown @ [Core]))
   \<and> mCommandQueue (state_after cfg_mt 0 4 (three_commands_then_shutdown @ [Core])) = []
   \<and> workers (state_after cfg_mt 0 4 three_commands_then_shutdown) = 3
   \<and> workers (state_after cfg_mt 0 4 (three_commands_then_shutdown @ [Core])) = 4"
proof -
  have x: "execution cfg_mt 0 4 (three_commands_then_shutdown @ [Core]) \<noteq> None"
    by (simp add: three_commands_then_shutdown_def model_defs)
  have a: "core_pc (state_after cfg_mt 0 4 three_commands_then_shutdown) = CShutdown"
    and w: "workers (state_after cfg_mt 0 4 three_commands_then_shutdown) = 3"
    by (simp_all add: three_commands_then_shutdown_def model_defs)
  have b: "core_pc (state_after cfg_mt 0 4 (three_commands_then_shutdown @ [Core])) = CExited"
    and q: "enqueued (state_after cfg_mt 0 4 (three_commands_then_shutdown @ [Core])) = [0, 1, 2]"
    and r: "executed (state_after cfg_mt 0 4 (three_commands_then_shutdown @ [Core]))
       = [(1, 0, 10), (1, 1, 11), (1, 2, 12)]"
    by (simp_all add: three_commands_then_shutdown_def model_defs)
  have ne: "core_pc (state_after cfg_mt 0 4 three_commands_then_shutdown) \<noteq> CExited"
    using a by simp
  from shutdown_drains_queue[OF step_state_after[OF x] b ne] x a b q r w
  show ?thesis by simp
qed

text \<open>
  C7 as stated fails, in two ways. In a forced single-threaded build a blocking submitter
  returns without having found or removed anything: thread 3 calls
  \<^verbatim>\<open>queueReturnCommand\<close> with \<open>blockUntilComplete = true\<close> and gets notify id 0; its
  step through \<^verbatim>\<open>blockUntilCommandCompleted\<close> returns while the completed list is empty
  before and after, and the command has not executed. In a threaded build, once the
  counter has wrapped: id 0 is in the completed list for thread 2 when the core thread
  invokes the command of thread 3, which was given id 0 as well, and
  \<^verbatim>\<open>commandCompletedNotify\<close> pushes a second 0.
\<close>

theorem completed_ids_counterexample:
  "(CM_FORCE_SINGLETHREADED_RENDERING cfg_st
    \<and> execution cfg_st 0 4
        [Call 3 (QueueReturnCommand 8 True), Step 3, Step 3, Step 3, Step 3] \<noteq> None
    \<and> ppcs (state_after cfg_st 0 4 [Call 3 (QueueReturnCommand 8 True), Step 3, Step 3, Step 3]) 3
        = BLock 0 0
    \<and> mCommandsCompleted
        (state_after cfg_st 0 4 [Call 3 (QueueReturnCommand 8 True), Step 3, Step 3, Step 3]) = []
    \<and> step cfg_st (Step 3)
        (state_after cfg_st 0 4 [Call 3 (QueueReturnCommand 8 True), Step 3, Step 3, Step 3])
        = Some (state_after cfg_st 0 4
            [Call 3 (QueueReturnCommand 8 True), Step 3, Step 3, Step 3, Step 3])
    \<and> ppcs (state_after cfg_st 0 4
         [Call 3 (QueueReturnCommand 8 True), Step 3, Step 3, Step 3, Step 3]) 3
        = RetQueued 0 True
    \<and> mCommandsCompleted (state_after cfg_st 0 4
         [Call 3 (QueueReturnCommand 8 True), Step 3, Step 3, Step 3, Step 3]) = []
    \<and> executed (state_after cfg_st 0 4
         [Call 3 (QueueReturnCommand 8 True), Step 3, Step 3, Step 3, Step 3]) = [])
   \<and> (execution cfg_mt 0 4 (until_wraparound @
          [Call 3 (QueueReturnCommand 8 True), Step 3, Step 3,
           Core, Core, Core, Core, Core, Core]) \<noteq> None
    \<and> mCommandsCompleted (state_after cfg_mt 0 4 (until_wraparound @
          [Call 3 (QueueReturnCommand 8 True), Step 3, Step 3,
           Core, Core, Core, Core, Core, Core])) = [0, 0]
    \<and> count_list (mCommandsCompleted (state_after cfg_mt 0 4 (until_wraparound @
          [Call 3 (QueueReturnCommand 8 True), Step 3, Step 3,
           Core, Core, Core, Core, Core, Core]))) 0 = 2)"
proof (rule conjI)
  show "CM_FORCE_SINGLETHREADED_RENDERING cfg_st
    \<and> execution cfg_st 0 4
        [Call 3 (QueueReturnCommand 8 True), Step 3, Step 3, Step 3, Step 3] \<noteq> None
    \<and> ppcs (state_after cfg_st 0 4 [Call 3 (QueueReturnCommand 8 True), Step 3, Step 3, Step 3]) 3
        = BLock 0 0
    \<and> mCommandsCompleted
        (state_after cfg_st 0 4 [Call 3 (QueueReturnCommand 8 True), Step 3, Step 3, Step 3]) = []
    \<and> step cfg_st (Step 3)
        (state_after cfg_st 0 4 [Call 3 (QueueReturnCommand 8 True), Step 3, Step 3, Step 3])
        = Some (state_after cfg_st 0 4
            [Call 3 (QueueReturnCommand 8 True), Step 3, Step 3, Step 3, Step 3])
    \<and> ppcs (state_after cfg_st 0 4
         [Call 3 (QueueReturnCommand 8 True), Step 3, Step 3, Step 3, Step 3]) 3
        = RetQueued 0 True
    \<and> mCommandsCompleted (state_after cfg_st 0 4
         [Call 3 (QueueReturnCommand 8 True), Step 3, Step 3, Step 3, Step 3]) = []
    \<and> executed (state_after cfg_st 0 4
         [Call 3 (QueueReturnCommand 8 True), Step 3, Step 3, Step 3, Step 3]) = []"
    by (simp add: model_defs)
  show "execution cfg_mt 0 4 (until_wraparound @
          [Call 3 (QueueReturnCommand 8 True), Step 3, Step 3,
           Core, Core, Core, Core, Core, Core]) \<noteq> None
    \<and> mCommandsCompleted (state_after cfg_mt 0 4 (until_wraparound @
          [Call 3 (QueueReturnCommand 8 True), Step 3, Step 3,
           Core, Core, Core, Core, Core, Core])) = [0, 0]
    \<and> count_list (mCommandsCompleted (state_after cfg_mt 0 4 (until_wraparound @
          [Call 3 (QueueReturnCommand 8 True), Step 3, Step 3,
           Core, Core, Core, Core, Core, Core]))) 0 = 2"
    by (simp only: after_wraparound) (intro conjI wrapped_push[OF wrap_id])
qed

text \<open>
  C7, amended. In a build without \<^verbatim>\<open>CM_FORCE_SINGLETHREADED_RENDERING\<close>, and while no
  more than \<open>2 ^ 32\<close> notify ids have been handed out: in every reachable state no id occurs twice in the completed list; a thread
  inside \<^verbatim>\<open>blockUntilCommandCompleted\<close> returns only by the step of its scan that finds its
  id in the list, where the id occurs once, and that step erases it and leaves every other
  id as it was; conversely a scan that finds its id returns, erasing it; and no other
  thread inside a blocking submission waits for the same id.
\<close>

theorem completed_ids_consumed_once:
  assumes "execution cfg t0 w es = Some s" and "step cfg e s = Some s'"
    and "\<not> CM_FORCE_SINGLETHREADED_RENDERING cfg" and "nalloc s \<le> 2 ^ 32"
  shows "distinct (mCommandsCompleted s)
     \<and> (\<forall>t n c b. e = Step t \<and> (ppcs s t = BLock n c \<or> ppcs s t = BScan n c
               \<or> ppcs s t = BWaiting n c) \<and> ppcs s' t = RetQueued n b \<longrightarrow>
           ppcs s t = BScan n c \<and> b
           \<and> count_list (mCommandsCompleted s) c = 1
           \<and> mCommandsCompleted s' = remove1 c (mCommandsCompleted s)
           \<and> c \<notin> set (mCommandsCompleted s')
           \<and> (\<forall>d. d \<noteq> c \<longrightarrow> count_list (mCommandsCompleted s') d
                                 = count_list (mCommandsCompleted s) d))
     \<and> (\<forall>t n c. e = Step t \<and> ppcs s t = BScan n c \<and> c \<in> set (mCommandsCompleted s) \<longrightarrow>
           ppcs s' t = RetQueued n True
           \<and> mCommandsCompleted s' = remove1 c (mCommandsCompleted s))
     \<and> (\<forall>t u n c m d. t \<noteq> u \<and> awaiting (ppcs s t) = Some (n, c)
           \<and> awaiting (ppcs s u) = Some (m, d) \<longrightarrow> c \<noteq> d)"
proof -
  have I: "id_inv cfg s" using assms(1) by (rule execution_id_inv)
  have nw: "no_wrap s" using assms(4) by (simp add: no_wrap_def)
  have D: "distinct (mCommandsCompleted s)"
    using id_inv_globalD(3)[OF id_invD(1)[OF I] nw] by (simp add: live_ids_def)
  have cnt: "count_list (remove1 c xs) d = count_list xs d" if "d \<noteq> c" for c d :: u32 and xs
    using that by (induction xs) auto
  have A: "ppcs s t = BScan n c \<and> b
           \<and> count_list (mCommandsCompleted s) c = 1
           \<and> mCommandsCompleted s' = remove1 c (mCommandsCompleted s)
           \<and> c \<notin> set (mCommandsCompleted s')
           \<and> (\<forall>d. d \<noteq> c \<longrightarrow> count_list (mCommandsCompleted s') d
                                 = count_list (mCommandsCompleted s) d)"
    if "e = Step t" and pcs: "ppcs s t = BLock n c \<or> ppcs s t = BScan n c \<or> ppcs s t = BWaiting n c"
      and ret: "ppcs s' t = RetQueued n b" for t n c b
  proof -
    from assms(2) that(1) have "producer_step cfg t s = Some s'"
      by (simp add: step_def split: if_splits)
    then show ?thesis using pcs ret assms(3) D
      by (cases rule: producer_step_cases) (auto simp: distinct_count_list cnt)
  qed
  have B: "ppcs s' t = RetQueued n True
           \<and> mCommandsCompleted s' = remove1 c (mCommandsCompleted s)"
    if "e = Step t" and "ppcs s t = BScan n c" and "c \<in> set (mCommandsCompleted s)" for t n c
  proof -
    from assms(2) that(1) have "producer_step cfg t s = Some s'"
      by (simp add: step_def split: if_splits)
    then show ?thesis using that(2,3)
      by (cases rule: producer_step_cases) simp_all
  qed
  have C: "c \<noteq> d" if "t \<noteq> u" "awaiting (ppcs s t) = Some (n, c)"
      "awaiting (ppcs s u) = Some (m, d)" for t u n c m d
      using id_invD(3)[OF I, of t u] nw that by (simp add: id_inv_pair_def)
  from D A B C show ?thesis by blast
qed

theorem completed_ids_consumed_once_witness:
  "\<not> CM_FORCE_SINGLETHREADED_RENDERING cfg_mt
   \<and> execution cfg_mt 0 4 (two_waiters @ [Step 2]) \<noteq> None
   \<and> nalloc (state_after cfg_mt 0 4 two_waiters) = 2
   \<and> ppcs (state_after cfg_mt 0 4 two_waiters) 2 = BScan 0 0
   \<and> ppcs (state_after cfg_mt 0 4 two_waiters) 3 = QNotifyAll 1 True 1
   \<and> mCommandsCompleted (state_after cfg_mt 0 4 two_waiters) = [0]
   \<and> count_list (mCommandsCompleted (state_after cfg_mt 0 4 two_waiters)) 0 = 1
   \<and> ppcs (state_after cfg_mt 0 4 (two_waiters @ [Step 2])) 2 = RetQueued 0 True
   \<and> mCommandsCompleted (state_after cfg_mt 0 4 (two_waiters @ [Step 2])) = []
   \<and> executed (state_after cfg_mt 0 4 (two_waiters @ [Step 2])) = [(1, 0, 7)]"
proof -
  have f: "\<not> CM_FORCE_SINGLETHREADED_RENDERING cfg_mt" by (simp add: cfg_mt_def)
  have x: "execution cfg_mt 0 4 (two_waiters @ [Step 2]) \<noteq> None"
    by (simp add: two_waiters_def model_defs)
  have n: "nalloc (state_after cfg_mt 0 4 two_waiters) = 2"
    and p2: "ppcs (state_after cfg_mt 0 4 two_waiters) 2 = BScan 0 0"
    and p3: "ppcs (state_after cfg_mt 0 4 two_waiters) 3 = QNotifyAll 1 True 1"
    and c: "mCommandsCompleted (state_after cfg_mt 0 4 two_waiters) = [0]"
    by (simp_all add: two_waiters_def model_defs)
  have r: "ppcs (state_after cfg_mt 0 4 (two_waiters @ [Step 2])) 2 = RetQueued 0 True"
    and c': "mCommandsCompleted (state_after cfg_mt 0 4 (two_waiters @ [Step 2])) = []"
    and ex: "executed (state_after cfg_mt 0 4 (two_waiters @ [Step 2])) = [(1, 0, 7)]"
    by (simp_all add: two_waiters_def model_defs)
  have n': "nalloc (state_after cfg_mt 0 4 two_waiters) \<le> 2 ^ 32" using n by simp
  from completed_ids_consumed_once[OF step_state_after[OF x] f n'] f x n p2 p3 c r c' ex
  show ?thesis by simp
qed

text \<open>
  C8. In every reachable state the scheduler's worker count is the initial count less one
  exactly when the core thread stands between its \<^verbatim>\<open>removeWorker\<close> and its next
  \<^verbatim>\<open>addWorker\<close>; so it is one less while the thread flushes or executes commands and the
  full count while the thread is blocked in the wait. The wait is entered only from the
  point right after \<^verbatim>\<open>addWorker\<close>, which is reached only by the step that calls
  \<^verbatim>\<open>addWorker\<close>; the wait is left only to the point right before \<^verbatim>\<open>removeWorker\<close>, which
  is left only by the step that calls \<^verbatim>\<open>removeWorker\<close> and goes back to the test of the
  queue.
\<close>

theorem worker_slot_paired_with_wait:
  assumes "execution cfg t0 w es = Some s" and "step cfg e s = Some s'"
  shows "workers s = w - (if holds_slot (core_pc s) then 1 else 0)
     \<and> (flushing_or_executing (core_pc s) \<longrightarrow> workers s = w - 1)
     \<and> (core_pc s = CWaiting \<longrightarrow> workers s = w)
     \<and> (core_pc s' = CWaiting \<and> core_pc s \<noteq> CWaiting \<longrightarrow> core_pc s = CWaitCall)
     \<and> (core_pc s' = CWaitCall \<and> core_pc s \<noteq> CWaitCall \<longrightarrow>
           core_pc s = CAddWorker \<and> s' = (addWorker s)\<lparr>core_pc := CWaitCall\<rparr>
           \<and> workers s = w - 1 \<and> workers s' = w)
     \<and> (core_pc s = CWaiting \<and> core_pc s' \<noteq> CWaiting \<longrightarrow> core_pc s' = CRemoveWorker)
     \<and> (core_pc s = CRemoveWorker \<and> core_pc s' \<noteq> CRemoveWorker \<longrightarrow>
           core_pc s' = CTest \<and> s' = (removeWorker s)\<lparr>core_pc := CTest\<rparr>
           \<and> workers s = w \<and> workers s' = w - 1)"
proof -
  have W: "worker_inv w s" using assms(1) by (rule execution_worker_inv)
  then have 1: "workers s = w - (if holds_slot (core_pc s) then 1 else 0)"
    by (simp add: worker_inv_def)
  have 2: "flushing_or_executing (core_pc s) \<longrightarrow> workers s = w - 1"
    using 1 by (auto dest: flushing_holds_slot)
  have 3: "core_pc s = CWaiting \<longrightarrow> workers s = w" using 1 by auto
  have 4: "(core_pc s' = CWaiting \<and> core_pc s \<noteq> CWaiting \<longrightarrow> core_pc s = CWaitCall)
     \<and> (core_pc s' = CWaitCall \<and> core_pc s \<noteq> CWaitCall \<longrightarrow>
           core_pc s = CAddWorker \<and> s' = (addWorker s)\<lparr>core_pc := CWaitCall\<rparr>
           \<and> workers s = w - 1 \<and> workers s' = w)
     \<and> (core_pc s = CWaiting \<and> core_pc s' \<noteq> CWaiting \<longrightarrow> core_pc s' = CRemoveWorker)
     \<and> (core_pc s = CRemoveWorker \<and> core_pc s' \<noteq> CRemoveWorker \<longrightarrow>
           core_pc s' = CTest \<and> s' = (removeWorker s)\<lparr>core_pc := CTest\<rparr>
           \<and> workers s = w \<and> workers s' = w - 1)"
  proof (cases "e = Core")
    case False
    with assms(2) have "core_pc s' = core_pc s" by (rule step_core_pc_other)
    then show ?thesis by simp
  next
    case True
    with assms(2) have "core_step cfg s = Some s'" by (simp add: step_def)
    with W show ?thesis by (rule core_step_wait_pairing)
  qed
  from 1 2 3 4 show ?thesis by (intro conjI) blast+
qed

theorem worker_slot_paired_with_wait_witness:
  "execution cfg_mt 0 4 [Core, Core, Core, Core] \<noteq> None
   \<and> core_pc (state_after cfg_mt 0 4 [Core, Core, Core]) = CAddWorker
   \<and> workers (state_after cfg_mt 0 4 [Core, Core, Core]) = 3
   \<and> core_pc (state_after cfg_mt 0 4 [Core, Core, Core, Core]) = CWaitCall
   \<and> workers (state_after cfg_mt 0 4 [Core, Core, Core, Core]) = 4
   \<and> execution cfg_mt 0 4 [Core, Core, Core, Core, Core, Core, Core] \<noteq> None
   \<and> core_pc (state_after cfg_mt 0 4 [Core, Core, Core, Core, Core, Core]) = CRemoveWorker
   \<and> workers (state_after cfg_mt 0 4 [Core, Core, Core, Core, Core, Core]) = 4
   \<and> core_pc (state_after cfg_mt 0 4 [Core, Core, Core, Core, Core, Core, Core]) = CTest
   \<and> workers (state_after cfg_mt 0 4 [Core, Core, Core, Core, Core, Core, Core]) = 3"
proof -
  have x: "execution cfg_mt 0 4 ([Core, Core, Core] @ [Core]) \<noteq> None"
    and y: "execution cfg_mt 0 4 ([Core, Core, Core, Core, Core, Core] @ [Core]) \<noteq> None"
    by (simp_all add: model_defs)
  have a: "core_pc (state_after cfg_mt 0 4 [Core, Core, Core]) = CAddWorker"
    and b: "core_pc (state_after cfg_mt 0 4 ([Core, Core, Core] @ [Core])) = CWaitCall"
    and c: "core_pc (state_after cfg_mt 0 4 [Core, Core, Core, Core, Core, Core]) = CRemoveWorker"
    and d: "core_pc (state_after cfg_mt 0 4 ([Core, Core, Core, Core, Core, Core] @ [Core]))
        = CTest"
    by (simp_all add: model_defs)
  from worker_slot_paired_with_wait[OF step_state_after[OF x]]
    worker_slot_paired_with_wait[OF step_state_after[OF y]] x y a b c d
  show ?thesis by (simp add: addWorker_def removeWorker_def)
qed

end
